theory Spec2Isabelle
  imports Complex_Main "HOL-Library.Product_Lexorder" "HOL-Library.Sublist" "HOL-Library.AList"
begin

section \<open>Data model (models.py)\<close>

text \<open>
  The class \<open>Observation\<close> of models.py. Python floats are idealised as reals: rounding,
  overflow and NaN are outside this development, with one exception, the sums in the
  table of the exact solver, which are rounded as sums of doubles are. The field \<open>end\<close>
  of the source is called \<open>endt\<close>, and \<open>id\<close> is called \<open>oid\<close> (the name of the constructor argument).
\<close>

record observation =
  oid :: string
  start :: real
  endt :: real
  duration :: real
  ra :: real
  dec :: real
  weight :: real

text \<open>Two tasks are compatible iff one's end is at most the other's start.\<close>

definition compatible :: "observation \<Rightarrow> observation \<Rightarrow> bool" where
  "compatible a b \<longleftrightarrow> endt a \<le> start b \<or> endt b \<le> start a"

text \<open>Pairwise non-overlap of a list of tasks, taken by position.\<close>

fun non_overlapping :: "observation list \<Rightarrow> bool" where
  "non_overlapping [] = True"
| "non_overlapping (x # xs) = (list_all (compatible x) xs \<and> non_overlapping xs)"

definition valid_intervals :: "observation list \<Rightarrow> bool" where
  "valid_intervals obs_list = list_all (\<lambda>ob. start ob < endt ob) obs_list"

section \<open>Binary search (the standard library's bisect)\<close>

text \<open>
  \<open>bisect.bisect_right(a, x)\<close> and \<open>bisect.bisect_left(a, x)\<close> with the default bounds
  \<open>lo = 0\<close>, \<open>hi = len(a)\<close>: the loop \<open>while lo < hi\<close> of the library.
\<close>

function bisect_right_loop :: "real list \<Rightarrow> real \<Rightarrow> nat \<Rightarrow> nat \<Rightarrow> nat" where
  "bisect_right_loop a x lo hi =
     (if lo < hi then
        (let mid = (lo + hi) div 2 in
         if x < a ! mid then bisect_right_loop a x lo mid
         else bisect_right_loop a x (mid + 1) hi)
      else lo)"
  by pat_completeness auto
termination
  by (relation "measure (\<lambda>(a, x, lo, hi). hi - lo)") auto

definition bisect_right :: "real list \<Rightarrow> real \<Rightarrow> nat" where
  "bisect_right a x = bisect_right_loop a x 0 (length a)"

function bisect_left_loop :: "real list \<Rightarrow> real \<Rightarrow> nat \<Rightarrow> nat \<Rightarrow> nat" where
  "bisect_left_loop a x lo hi =
     (if lo < hi then
        (let mid = (lo + hi) div 2 in
         if a ! mid < x then bisect_left_loop a x (mid + 1) hi
         else bisect_left_loop a x lo mid)
      else lo)"
  by pat_completeness auto
termination
  by (relation "measure (\<lambda>(a, x, lo, hi). hi - lo)") auto

definition bisect_left :: "real list \<Rightarrow> real \<Rightarrow> nat" where
  "bisect_left a x = bisect_left_loop a x 0 (length a)"

section \<open>The exact solver (dynamic_scheduler.py)\<close>

text \<open>
  Line 27: \<open>o.weight * (max(o.duration, 1.0) ** 0.25)\<close>. The base is at least 1, so the
  power is the real power.
\<close>

definition transformed_weight :: "observation \<Rightarrow> real" where
  "transformed_weight ob = weight ob * (max (duration ob) 1 powr (1 / 4))"

definition total_transformed_weight :: "observation list \<Rightarrow> real" where
  "total_transformed_weight sched = sum_list (map transformed_weight sched)"

text \<open>Step 2: the indices sorted by end time (Python's sort is stable, as \<open>sort_key\<close> is).\<close>

definition dp_indices :: "observation list \<Rightarrow> nat list" where
  "dp_indices obs_list =
     (let ends = map endt obs_list in
      sort_key (\<lambda>i. ends ! i) [0..<length obs_list])"

definition dp_ends_s :: "observation list \<Rightarrow> real list" where
  "dp_ends_s obs_list = (let ends = map endt obs_list in map (\<lambda>i. ends ! i) (dp_indices obs_list))"

definition dp_starts_s :: "observation list \<Rightarrow> real list" where
  "dp_starts_s obs_list =
     (let starts = map start obs_list in map (\<lambda>i. starts ! i) (dp_indices obs_list))"

definition dp_weights_s :: "observation list \<Rightarrow> real list" where
  "dp_weights_s obs_list =
     (let weights = map transformed_weight obs_list in
      map (\<lambda>i. weights ! i) (dp_indices obs_list))"

text \<open>Step 3: \<open>p[i] = bisect_right(ends_s, starts_s[i]) - 1\<close>, an integer that may be \<open>-1\<close>.\<close>

definition dp_p :: "observation list \<Rightarrow> int list" where
  "dp_p obs_list =
     map (\<lambda>i. int (bisect_right (dp_ends_s obs_list) (dp_starts_s obs_list ! i)) - 1)
       [0..<length obs_list]"

text \<open>
  The sum of two doubles (\<open>incl += M[j + 1]\<close>, lines 57 and 71) is the real sum rounded
  to the nearest double, a tie going to the even significand: a double is an integer
  multiple of \<open>2 ** (e - 52)\<close> where \<open>2 ** e\<close> is the power of two at or below its
  magnitude, and \<open>e\<close> is never taken below \<open>-1022\<close>. Here the rounding decides which tasks
  are returned, so it is kept. A sum of magnitude \<open>2 ** 1024\<close> or more is infinite in
  Python; the table below holds reals and has no infinity, so such sums are outside the
  model, and the statement about optimality assumes every sum in range.
\<close>

definition round_half_even :: "real \<Rightarrow> int" where
  "round_half_even x =
     (let f = \<lfloor>x\<rfloor>; d = x - of_int f in
      if d < 1 / 2 then f else if 1 / 2 < d then f + 1 else if even f then f else f + 1)"

definition double_round :: "real \<Rightarrow> real" where
  "double_round x =
     (if x = 0 then 0
      else (let u = 2 powi (max \<lfloor>log 2 \<bar>x\<bar>\<rfloor> (- 1022) - 52) in
            u * of_int (round_half_even (x / u))))"

definition py_float_add :: "real \<Rightarrow> real \<Rightarrow> real" where
  "py_float_add x y = double_round (x + y)"

text \<open>Step 4: one pass of the loop body over the table \<open>M\<close>, and the loop.\<close>

definition dp_incl :: "real list \<Rightarrow> int list \<Rightarrow> real list \<Rightarrow> nat \<Rightarrow> real" where
  "dp_incl weights_s p M i =
     (let incl = weights_s ! (i - 1); j = p ! (i - 1) in
      if j \<ge> 0 then py_float_add incl (M ! nat (j + 1)) else incl)"

definition dp_step :: "real list \<Rightarrow> int list \<Rightarrow> nat \<Rightarrow> real list \<Rightarrow> real list" where
  "dp_step weights_s p i M =
     (let incl = dp_incl weights_s p M i; excl = M ! (i - 1) in
      M[i := (if incl > excl then incl else excl)])"

definition dp_M :: "observation list \<Rightarrow> real list" where
  "dp_M obs_list =
     (let n = length obs_list in
      fold (dp_step (dp_weights_s obs_list) (dp_p obs_list)) [1..<n + 1] (replicate (n + 1) 0))"

text \<open>
  Step 5: the loop \<open>while i > 0\<close>. Nothing in the source bounds the number of its
  iterations (\<open>i = j + 1\<close> need not decrease), so not returning is the value \<open>None\<close>.
\<close>

partial_function (option) reconstruct ::
  "real list \<Rightarrow> int list \<Rightarrow> real list \<Rightarrow> nat list \<Rightarrow> nat \<Rightarrow> nat list \<Rightarrow> nat list option" where
  "reconstruct weights_s p M indices i chosen_indices =
     (if i > 0 then
        (if dp_incl weights_s p M i \<ge> M ! (i - 1)
         then reconstruct weights_s p M indices (nat (p ! (i - 1) + 1))
                (chosen_indices @ [indices ! (i - 1)])
         else reconstruct weights_s p M indices (i - 1) chosen_indices)
      else Some chosen_indices)"

definition dynamic_weighted_interval_scheduling :: "observation list \<Rightarrow> observation list option" where
  "dynamic_weighted_interval_scheduling obs_list =
     (let n = length obs_list in
      if n = 0 then Some []
      else
        (case reconstruct (dp_weights_s obs_list) (dp_p obs_list) (dp_M obs_list)
                (dp_indices obs_list) n [] of
           None \<Rightarrow> None
         | Some chosen_indices \<Rightarrow> Some (map (\<lambda>idx. obs_list ! idx) (rev chosen_indices))))"

section \<open>The greedy baseline (greedy_scheduler.py)\<close>

text \<open>
  \<open>sorted(observations, key=weight, reverse=True)\<close> keeps equal weights in their input
  order; the loop carries \<open>schedule\<close> and \<open>current_end\<close> (\<open>None\<close> at first).
\<close>

fun greedy_loop :: "observation list \<Rightarrow> observation list \<Rightarrow> real option \<Rightarrow> observation list" where
  "greedy_loop [] schedule current_end = schedule"
| "greedy_loop (ob # rest) schedule current_end =
     (if (case current_end of None \<Rightarrow> True | Some ce \<Rightarrow> start ob \<ge> ce)
      then greedy_loop rest (schedule @ [ob]) (Some (endt ob))
      else greedy_loop rest schedule current_end)"

definition greedy_schedule :: "observation list \<Rightarrow> observation list" where
  "greedy_schedule observations =
     (let obs_sorted = rev (sort_key weight (rev observations)) in
      greedy_loop obs_sorted [] None)"

section \<open>The ant-colony solver (ant_colony_scheduler.py)\<close>

subsection \<open>Errors, list reads, dictionaries, powers, random draws\<close>

text \<open>The exceptions the statements of the solver can raise.\<close>

datatype error = IndexError | ZeroDivisionError | TypeError | ValueError

definition bind_err :: "error + 'a \<Rightarrow> ('a \<Rightarrow> error + 'b) \<Rightarrow> error + 'b" where
  "bind_err m f = (case m of Inl e \<Rightarrow> Inl e | Inr v \<Rightarrow> f v)"

lemma bind_err_cong [fundef_cong]:
  "m = m' \<Longrightarrow> (\<And>v. m' = Inr v \<Longrightarrow> f v = f' v) \<Longrightarrow> bind_err m f = bind_err m' f'"
  by (cases m') (simp_all add: bind_err_def)

text \<open>\<open>xs[i]\<close> for a non-negative index: IndexError out of range.\<close>

definition list_get :: "'a list \<Rightarrow> nat \<Rightarrow> error + 'a" where
  "list_get xs i = (if i < length xs then Inr (xs ! i) else Inl IndexError)"

text \<open>\<open>[f(x) for x in xs]\<close> where \<open>f\<close> may raise: the first error ends the loop.\<close>

fun map_err :: "('a \<Rightarrow> error + 'b) \<Rightarrow> 'a list \<Rightarrow> error + 'b list" where
  "map_err f [] = Inr []"
| "map_err f (x # xs) =
     bind_err (f x) (\<lambda>y. bind_err (map_err f xs) (\<lambda>ys. Inr (y # ys)))"

text \<open>\<open>xs[lo:hi]\<close> for non-negative bounds.\<close>

definition py_slice :: "'a list \<Rightarrow> nat \<Rightarrow> nat \<Rightarrow> 'a list" where
  "py_slice xs lo hi = take (hi - lo) (drop lo xs)"

text \<open>
  A \<open>dict\<close> from task index to float, as an association list in insertion order:
  \<open>row.get(j, d)\<close>, \<open>j in row\<close> and \<open>row[j] = v\<close> (which keeps the place of a key already
  present and appends a new one).
\<close>

type_synonym row = "(nat \<times> real) list"

definition dict_get :: "row \<Rightarrow> nat \<Rightarrow> real \<Rightarrow> real" where
  "dict_get row j d = (case map_of row j of None \<Rightarrow> d | Some v \<Rightarrow> v)"

definition dict_mem :: "nat \<Rightarrow> row \<Rightarrow> bool" where
  "dict_mem j row \<longleftrightarrow> map_of row j \<noteq> None"

definition dict_set :: "row \<Rightarrow> nat \<Rightarrow> real \<Rightarrow> row" where
  "dict_set row j v = AList.update j v row"

text \<open>
  \<open>x ** y\<close> on floats, over the reals: \<open>x ** 0\<close> is 1; \<open>0.0\<close> to a negative power raises
  ZeroDivisionError; a negative base with a non-integral exponent gives a complex number,
  on which the comparisons \<open>tau <= 0\<close>, \<open>eta <= 0\<close> or \<open>total <= 0\<close> that follow in
  \<open>build_ant_tour\<close> raise TypeError, so the model raises it at the power. Python also
  raises OverflowError when the power is too large for a double; the reals have no largest
  number, and that error is outside the model.
\<close>

definition py_pow :: "real \<Rightarrow> real \<Rightarrow> error + real" where
  "py_pow x y =
     (if y = 0 then Inr 1
      else if x = 0 then (if y < 0 then Inl ZeroDivisionError else Inr 0)
      else if of_int \<lfloor>y\<rfloor> = y then Inr (x powi \<lfloor>y\<rfloor>)
      else if x < 0 then Inl TypeError
      else Inr (x powr y))"

text \<open>
  The module \<open>random\<close>: the generator is a sequence of draws and the number of draws taken
  so far. A draw is read as an integer by \<open>randrange\<close> (reduced into \<open>range(n)\<close>; an
  empty range raises ValueError) or as a float by \<open>random()\<close>. Every theorem below holds
  for every sequence.
\<close>

record rng =
  draws :: "nat \<Rightarrow> nat \<times> real"
  taken :: nat

definition random_randrange :: "nat \<Rightarrow> rng \<Rightarrow> error + nat \<times> rng" where
  "random_randrange n g =
     (if n = 0 then Inl ValueError
      else Inr (fst (draws g (taken g)) mod n, g\<lparr>taken := taken g + 1\<rparr>))"

definition random_random :: "rng \<Rightarrow> real \<times> rng" where
  "random_random g = (snd (draws g (taken g)), g\<lparr>taken := taken g + 1\<rparr>)"

subsection \<open>Steps 1 and 2: the candidate successor lists\<close>

definition slew_at :: "real list list \<Rightarrow> nat \<Rightarrow> nat \<Rightarrow> error + real" where
  "slew_at slew_matrix i j = bind_err (list_get slew_matrix i) (\<lambda>r. list_get r j)"

text \<open>Lines 46 to 48 and 67 to 68: \<open>observations[idx].weight / max(slew_matrix[i][idx], 1)\<close>.\<close>

definition edge_heuristic :: "observation list \<Rightarrow> real list list \<Rightarrow> nat \<Rightarrow> nat \<Rightarrow> error + real" where
  "edge_heuristic observations slew_matrix i idx =
     bind_err (slew_at slew_matrix i idx) (\<lambda>s.
       let dist = max s 1 in
       bind_err (list_get observations idx) (\<lambda>ob. Inr (weight ob / dist)))"

text \<open>Line 30. The list \<open>order_by_end\<close> of line 31 is never read and is left out.\<close>

definition order_by_start :: "observation list \<Rightarrow> nat list" where
  "order_by_start observations =
     (let starts = map start observations in
      sort_key (\<lambda>i. starts ! i) [0..<length observations])"

text \<open>
  The body of the loop of lines 36 to 53 for one \<open>i\<close>. The fan-out limit \<open>top_k\<close> is a
  count (``number of candidate successors per node''), a natural number here.
  \<open>cand.sort(reverse=True)\<close> orders the pairs \<open>(h, idx)\<close> lexicographically, descending.
\<close>

definition successors_of ::
  "observation list \<Rightarrow> real list list \<Rightarrow> nat \<Rightarrow> nat \<Rightarrow> error + nat list" where
  "successors_of observations slew_matrix top_k i =
     (let starts = map start observations;
          ends = map endt observations;
          obs_order = order_by_start observations;
          pos = bisect_left (map (\<lambda>k. starts ! k) obs_order) (ends ! i);
          scan_limit = min (length obs_order) (pos + top_k * 5)
      in bind_err
           (map_err (\<lambda>idx. bind_err (edge_heuristic observations slew_matrix i idx)
                              (\<lambda>h. Inr (h, idx)))
              (py_slice obs_order pos scan_limit))
           (\<lambda>cand.
              let cand1 = rev (sort cand);
                  cand2 = (if length cand1 > top_k then take top_k cand1 else cand1)
              in Inr (map snd cand2)))"

definition build_successors ::
  "observation list \<Rightarrow> real list list \<Rightarrow> nat \<Rightarrow> error + nat list list" where
  "build_successors observations slew_matrix top_k =
     map_err (successors_of observations slew_matrix top_k) [0..<length observations]"

subsection \<open>Steps 3 and 4: pheromone and heuristic tables\<close>

definition init_pher :: real where
  "init_pher = 1"

definition init_pheromone :: "nat list list \<Rightarrow> row list" where
  "init_pheromone successors =
     map (\<lambda>i. fold (\<lambda>j r. dict_set r j init_pher) (successors ! i) []) [0..<length successors]"

fun heuristic_row ::
  "observation list \<Rightarrow> real list list \<Rightarrow> nat \<Rightarrow> nat list \<Rightarrow> row \<Rightarrow> error + row" where
  "heuristic_row observations slew_matrix i [] r = Inr r"
| "heuristic_row observations slew_matrix i (j # js) r =
     bind_err (edge_heuristic observations slew_matrix i j) (\<lambda>h.
       heuristic_row observations slew_matrix i js (dict_set r j h))"

definition build_heuristic ::
  "observation list \<Rightarrow> real list list \<Rightarrow> nat list list \<Rightarrow> error + row list" where
  "build_heuristic observations slew_matrix successors =
     map_err (\<lambda>i. heuristic_row observations slew_matrix i (successors ! i) [])
       [0..<length successors]"

subsection \<open>Tour construction (build_ant_tour)\<close>

text \<open>
  The \<open>for\<close> loop of lines 84 to 94 over \<open>successors[last]\<close>: the list \<open>cand\<close> of pairs
  \<open>(tau * eta, j)\<close>.
\<close>

fun tour_candidates ::
  "observation list \<Rightarrow> row list \<Rightarrow> row list \<Rightarrow> real \<Rightarrow> real \<Rightarrow> bool list \<Rightarrow> nat \<Rightarrow> nat list
   \<Rightarrow> error + (real \<times> nat) list" where
  "tour_candidates observations pher heuristic alpha beta used last_idx [] = Inr []"
| "tour_candidates observations pher heuristic alpha beta used last_idx (j # js) =
     bind_err (list_get used j) (\<lambda>u.
       if u then tour_candidates observations pher heuristic alpha beta used last_idx js
       else
         bind_err (list_get observations j) (\<lambda>oj.
         bind_err (list_get observations last_idx) (\<lambda>ol.
           if start oj \<ge> endt ol then
             bind_err (list_get pher last_idx) (\<lambda>prow.
             bind_err (py_pow (dict_get prow j 0) alpha) (\<lambda>tau.
             bind_err (list_get heuristic last_idx) (\<lambda>hrow.
             bind_err (py_pow (dict_get hrow j 0) beta) (\<lambda>eta.
               if tau \<le> 0 \<and> eta \<le> 0
               then tour_candidates observations pher heuristic alpha beta used last_idx js
               else
                 bind_err (tour_candidates observations pher heuristic alpha beta used last_idx js)
                   (\<lambda>cand. Inr ((tau * eta, j) # cand))))))
           else tour_candidates observations pher heuristic alpha beta used last_idx js)))"

text \<open>Lines 104 to 111: the walk along the cumulative weights.\<close>

fun roulette :: "(real \<times> nat) list \<Rightarrow> real \<Rightarrow> real \<Rightarrow> nat \<Rightarrow> nat" where
  "roulette [] r acc chosen = chosen"
| "roulette ((score, j) # rest) r acc chosen =
     (let acc' = acc + score in
      if acc' \<ge> r then j else roulette rest r acc' chosen)"

text \<open>Lines 98 to 111, for a non-empty \<open>cand\<close>: the chosen index and the generator.\<close>

definition choose_next :: "(real \<times> nat) list \<Rightarrow> rng \<Rightarrow> nat \<times> rng" where
  "choose_next cand g =
     (let total = sum_list (map fst cand) in
      if total \<le> 0 then (snd (hd (rev (sort cand))), g)
      else
        (case random_random g of (u, g') \<Rightarrow>
           let r = u * total in (roulette cand r 0 (snd (last cand)), g')))"

lemma snd_last_in_set: "cand \<noteq> [] \<Longrightarrow> snd (last cand) \<in> snd ` set cand"
  by simp

lemma roulette_in_set: "roulette cand r acc c \<in> insert c (snd ` set cand)"
  by (induction cand r acc c rule: roulette.induct) (auto simp: Let_def)

lemma choose_next_in_set:
  assumes "cand \<noteq> []"
  shows "fst (choose_next cand g) \<in> snd ` set cand"
proof (cases "sum_list (map fst cand) \<le> 0")
  case True
  have "sort cand \<noteq> []"
    using assms by (metis length_sort length_0_conv)
  then have "hd (rev (sort cand)) \<in> set (rev (sort cand))"
    by (intro hd_in_set) simp
  then show ?thesis
    using True by (simp add: choose_next_def)
next
  case False
  obtain u g' where ug: "random_random g = (u, g')"
    by (cases "random_random g")
  have "roulette cand (u * sum_list (map fst cand)) 0 (snd (last cand))
          \<in> insert (snd (last cand)) (snd ` set cand)"
    by (rule roulette_in_set)
  then have "roulette cand (u * sum_list (map fst cand)) 0 (snd (last cand)) \<in> snd ` set cand"
    using snd_last_in_set [OF assms] by (simp add: insert_absorb)
  then show ?thesis
    using False ug by (simp add: choose_next_def)
qed

lemma bind_err_Inr_iff: "bind_err m f = Inr y \<longleftrightarrow> (\<exists>v. m = Inr v \<and> f v = Inr y)"
  by (cases m) (simp_all add: bind_err_def)

lemma bind_err_simps [simp]:
  "bind_err (Inl e) f = Inl e"
  "bind_err (Inr v) f = f v"
  by (simp_all add: bind_err_def)

lemma list_get_Inr_iff: "list_get xs i = Inr x \<longleftrightarrow> i < length xs \<and> x = xs ! i"
  by (auto simp: list_get_def)

lemma tour_candidates_unused:
  "tour_candidates observations pher heuristic alpha beta used last_idx js = Inr cand
   \<Longrightarrow> (s, j) \<in> set cand \<Longrightarrow> j < length used \<and> \<not> used ! j"
proof (induction js arbitrary: cand)
  case Nil
  then show ?case by simp
next
  case (Cons k js)
  then show ?case
    by (auto simp: bind_err_Inr_iff list_get_Inr_iff split: if_splits)
qed

lemma count_False_update:
  "j < length used \<Longrightarrow> \<not> used ! j
   \<Longrightarrow> length (filter Not (used[j := True])) < length (filter Not used)"
proof (induction used arbitrary: j)
  case Nil
  then show ?case by simp
next
  case (Cons u us)
  then show ?case by (cases j) force+
qed

text \<open>
  The loop \<open>while True\<close> of lines 81 to 113, with the state \<open>selected\<close>, \<open>used\<close> and the
  generator. Each pass marks an unused index, so the loop ends.
\<close>

function tour_loop ::
  "observation list \<Rightarrow> nat list list \<Rightarrow> row list \<Rightarrow> row list \<Rightarrow> real \<Rightarrow> real
   \<Rightarrow> nat list \<Rightarrow> bool list \<Rightarrow> rng \<Rightarrow> error + (nat list \<times> rng)" where
  "tour_loop observations successors pher heuristic alpha beta selected used g =
     (if selected = [] then Inl IndexError
      else
        let last_idx = last selected in
        bind_err (list_get successors last_idx) (\<lambda>succ.
        bind_err (tour_candidates observations pher heuristic alpha beta used last_idx succ) (\<lambda>cand.
          if cand = [] then Inr (selected, g)
          else
            (case choose_next cand g of (chosen, g') \<Rightarrow>
               tour_loop observations successors pher heuristic alpha beta
                 (selected @ [chosen]) (used[chosen := True]) g'))))"
  by pat_completeness auto
termination
proof (relation "measure (\<lambda>(obs, succs, ph, he, al, be, sel, used, g). length (filter Not used))",
    goal_cases)
  case 1
  then show ?case by simp
next
  case (2 observations successors pher heuristic alpha beta selected used g last_idx succ cand
      chosen g')
  have "fst (choose_next cand g) \<in> snd ` set cand"
    using choose_next_in_set 2 by blast
  then have "chosen \<in> snd ` set cand"
    using 2 by (metis fst_conv)
  then obtain s where "(s, chosen) \<in> set cand"
    by auto
  then have "chosen < length used \<and> \<not> used ! chosen"
    using tour_candidates_unused 2 by blast
  then show ?case
    by (simp add: count_False_update)
qed

definition build_ant_tour ::
  "observation list \<Rightarrow> nat list list \<Rightarrow> row list \<Rightarrow> row list \<Rightarrow> real \<Rightarrow> real \<Rightarrow> rng
   \<Rightarrow> error + (nat list \<times> rng)" where
  "build_ant_tour observations successors pher heuristic alpha beta g =
     (let n = length observations in
      bind_err (random_randrange n g) (\<lambda>(start_idx, g1).
        tour_loop observations successors pher heuristic alpha beta
          [start_idx] ((replicate n False)[start_idx := True]) g1))"

subsection \<open>The main loop\<close>

text \<open>Line 127: \<open>sum(observations[i].weight for i in tour)\<close>.\<close>

definition tour_score :: "observation list \<Rightarrow> nat list \<Rightarrow> error + real" where
  "tour_score observations tour =
     bind_err (map_err (list_get observations) tour) (\<lambda>obs. Inr (sum_list (map weight obs)))"

text \<open>
  The loop of lines 125 to 133 over the ants, with the variables \<open>local_best_score\<close>,
  \<open>local_best\<close>, \<open>best_score\<close>, \<open>best_schedule\<close> and the generator.
\<close>

record ants_state =
  local_best_score :: real
  local_best :: "nat list option"
  best_score :: real
  best_schedule :: "nat list"
  gen :: rng

fun ants_loop ::
  "observation list \<Rightarrow> nat list list \<Rightarrow> row list \<Rightarrow> row list \<Rightarrow> real \<Rightarrow> real \<Rightarrow> nat
   \<Rightarrow> ants_state \<Rightarrow> error + ants_state" where
  "ants_loop observations successors pher heuristic alpha beta 0 s = Inr s"
| "ants_loop observations successors pher heuristic alpha beta (Suc k) s =
     bind_err (build_ant_tour observations successors pher heuristic alpha beta (gen s))
       (\<lambda>(tour, g').
          bind_err (tour_score observations tour) (\<lambda>score.
            let s1 = (if score > local_best_score s
                      then s\<lparr>local_best_score := score, local_best := Some tour\<rparr> else s);
                s2 = (if score > best_score s1
                      then s1\<lparr>best_score := score, best_schedule := tour\<rparr> else s1)
            in ants_loop observations successors pher heuristic alpha beta k (s2\<lparr>gen := g'\<rparr>)))"

text \<open>
  Lines 136 to 147: every trail is multiplied by \<open>1 - evap\<close>, and the entries below
  \<open>1e-8\<close> are deleted.
\<close>

definition evaporate_row :: "real \<Rightarrow> row \<Rightarrow> row" where
  "evaporate_row evap r =
     filter (\<lambda>(j, v). \<not> v < 1 / 100000000) (map (\<lambda>(j, v). (j, v * (1 - evap))) r)"

definition evaporate :: "real \<Rightarrow> row list \<Rightarrow> row list" where
  "evaporate evap pher = map (evaporate_row evap) pher"

text \<open>Lines 153 to 161: the deposit along the consecutive pairs of \<open>local_best\<close>.\<close>

fun deposit_loop :: "nat list list \<Rightarrow> real \<Rightarrow> nat list \<Rightarrow> row list \<Rightarrow> error + row list" where
  "deposit_loop successors deposit (a # b # rest) pher =
     bind_err (list_get pher a) (\<lambda>r.
       if dict_mem b r
       then deposit_loop successors deposit (b # rest)
              (pher[a := dict_set r b (dict_get r b 0 + deposit)])
       else
         bind_err (list_get successors a) (\<lambda>sa.
           if b \<in> set sa
           then deposit_loop successors deposit (b # rest)
                  (pher[a := dict_set r b (init_pher + deposit)])
           else deposit_loop successors deposit (b # rest) pher))"
| "deposit_loop successors deposit tour pher = Inr pher"

text \<open>Lines 150 and 151: nothing is deposited when \<open>local_best\<close> is \<open>None\<close> or empty.\<close>

definition deposit_pheromone ::
  "nat list list \<Rightarrow> real \<Rightarrow> nat list option \<Rightarrow> row list \<Rightarrow> error + row list" where
  "deposit_pheromone successors lbs lb pher =
     (case lb of
        None \<Rightarrow> Inr pher
      | Some tour \<Rightarrow>
          if tour = [] then Inr pher
          else
            let deposit = lbs / (1 + real (length tour)) in
            deposit_loop successors deposit tour pher)"

text \<open>The state carried from one iteration of the main loop to the next.\<close>

record aco_state =
  trails :: "row list"
  global_best_score :: real
  global_best_schedule :: "nat list"
  generator :: rng

definition aco_iteration ::
  "observation list \<Rightarrow> nat list list \<Rightarrow> row list \<Rightarrow> nat \<Rightarrow> real \<Rightarrow> real \<Rightarrow> real
   \<Rightarrow> aco_state \<Rightarrow> error + aco_state" where
  "aco_iteration observations successors heuristic num_ants alpha beta evap st =
     bind_err
       (ants_loop observations successors (trails st) heuristic alpha beta num_ants
          \<lparr>local_best_score = 0, local_best = None, best_score = global_best_score st,
           best_schedule = global_best_schedule st, gen = generator st\<rparr>)
       (\<lambda>s.
          let pher1 = evaporate evap (trails st) in
          bind_err (deposit_pheromone successors (local_best_score s) (local_best s) pher1)
            (\<lambda>pher2.
               Inr \<lparr>trails = pher2, global_best_score = best_score s,
                    global_best_schedule = best_schedule s, generator = gen s\<rparr>))"

fun aco_loop ::
  "observation list \<Rightarrow> nat list list \<Rightarrow> row list \<Rightarrow> nat \<Rightarrow> real \<Rightarrow> real \<Rightarrow> real \<Rightarrow> nat
   \<Rightarrow> aco_state \<Rightarrow> error + aco_state" where
  "aco_loop observations successors heuristic num_ants alpha beta evap 0 st = Inr st"
| "aco_loop observations successors heuristic num_ants alpha beta evap (Suc k) st =
     bind_err (aco_iteration observations successors heuristic num_ants alpha beta evap st)
       (aco_loop observations successors heuristic num_ants alpha beta evap k)"

definition aco_init :: "nat list list \<Rightarrow> rng \<Rightarrow> aco_state" where
  "aco_init successors g =
     \<lparr>trails = init_pheromone successors, global_best_score = 0,
      global_best_schedule = [], generator = g\<rparr>"

text \<open>
  The whole function. The counts \<open>num_ants\<close> and \<open>iterations\<close> are natural numbers; the
  generator is an argument, and its final state is dropped.
\<close>

definition ant_colony_schedule ::
  "observation list \<Rightarrow> real list list \<Rightarrow> nat \<Rightarrow> real \<Rightarrow> real \<Rightarrow> real \<Rightarrow> nat \<Rightarrow> nat \<Rightarrow> rng
   \<Rightarrow> error + observation list" where
  "ant_colony_schedule observations slew_matrix num_ants alpha beta evap iterations top_k g =
     (let n = length observations in
      if n = 0 then Inr []
      else
        bind_err (build_successors observations slew_matrix top_k) (\<lambda>successors.
        bind_err (build_heuristic observations slew_matrix successors) (\<lambda>heuristic.
        bind_err (aco_loop observations successors heuristic num_ants alpha beta evap iterations
                    (aco_init successors g)) (\<lambda>st.
          if global_best_schedule st = [] then Inr []
          else
            bind_err (map_err (list_get observations) (global_best_schedule st))
              (\<lambda>best_schedule_obs. Inr (sort_key start best_schedule_obs))))))"

text \<open>The raw-weight score of a schedule (the score of line 127, over the tasks).\<close>

definition total_weight :: "observation list \<Rightarrow> real" where
  "total_weight sched = sum_list (map weight sched)"

section \<open>Basic facts about the helpers\<close>

lemma map_err_Inr_iff: "map_err f xs = Inr ys \<longleftrightarrow> list_all2 (\<lambda>x y. f x = Inr y) xs ys"
proof (induction xs arbitrary: ys)
  case Nil
  then show ?case by auto
next
  case (Cons x xs)
  show ?case
    by (cases ys) (auto simp: bind_err_Inr_iff Cons.IH)
qed

lemma map_err_length: "map_err f xs = Inr ys \<Longrightarrow> length ys = length xs"
  by (simp add: map_err_Inr_iff list_all2_lengthD)

lemma map_err_nth: "map_err f xs = Inr ys \<Longrightarrow> k < length xs \<Longrightarrow> f (xs ! k) = Inr (ys ! k)"
  by (auto simp: map_err_Inr_iff dest: list_all2_nthD)

lemma map_err_total:
  assumes "\<And>x. x \<in> set xs \<Longrightarrow> \<exists>y. f x = Inr y"
  shows "\<exists>ys. map_err f xs = Inr ys"
  using assms
proof (induction xs)
  case Nil
  then show ?case by simp
next
  case (Cons x xs)
  then obtain y ys where "f x = Inr y" "map_err f xs = Inr ys"
    by (metis list.set_intros(1,2))
  then show ?case by simp
qed

subsection \<open>Binary search on a sorted list\<close>

declare bisect_left_loop.simps [simp del] bisect_right_loop.simps [simp del]
  tour_loop.simps [simp del]

lemma bisect_left_loop_spec:
  assumes "sorted a" "lo \<le> hi" "hi \<le> length a"
    and "\<forall>k<lo. a ! k < x" "\<forall>k. hi \<le> k \<and> k < length a \<longrightarrow> x \<le> a ! k"
  shows "bisect_left_loop a x lo hi \<le> length a
         \<and> (\<forall>k<bisect_left_loop a x lo hi. a ! k < x)
         \<and> (\<forall>k. bisect_left_loop a x lo hi \<le> k \<and> k < length a \<longrightarrow> x \<le> a ! k)"
  using assms
proof (induction a x lo hi rule: bisect_left_loop.induct)
  case (1 a x lo hi)
  show ?case
  proof (cases "lo < hi")
    case False
    with "1.prems" have "lo = hi" by simp
    have "bisect_left_loop a x lo hi = lo"
      using False by (subst bisect_left_loop.simps) simp
    with "1.prems" \<open>lo = hi\<close> show ?thesis
      by simp
  next
    case True
    define mid where "mid = (lo + hi) div 2"
    have mid: "lo \<le> mid" "mid < hi" "mid < length a"
      using True "1.prems" by (auto simp: mid_def)
    show ?thesis
    proof (cases "a ! mid < x")
      case lt: True
      have below: "\<forall>k<mid + 1. a ! k < x"
      proof (intro allI impI)
        fix k assume "k < mid + 1"
        then have "a ! k \<le> a ! mid"
          using \<open>sorted a\<close> mid by (auto simp: sorted_iff_nth_mono)
        with lt show "a ! k < x" by simp
      qed
      have eq: "bisect_left_loop a x lo hi = bisect_left_loop a x (mid + 1) hi"
        using True lt by (subst bisect_left_loop.simps) (simp add: mid_def Let_def)
      have "bisect_left_loop a x (mid + 1) hi \<le> length a
         \<and> (\<forall>k<bisect_left_loop a x (mid + 1) hi. a ! k < x)
         \<and> (\<forall>k. bisect_left_loop a x (mid + 1) hi \<le> k \<and> k < length a \<longrightarrow> x \<le> a ! k)"
        using "1.IH"(1) [OF True mid_def lt] "1.prems" mid below by simp
      then show ?thesis unfolding eq .
    next
      case ge: False
      have above: "\<forall>k. mid \<le> k \<and> k < length a \<longrightarrow> x \<le> a ! k"
      proof (intro allI impI)
        fix k assume "mid \<le> k \<and> k < length a"
        then have "a ! mid \<le> a ! k"
          using \<open>sorted a\<close> by (auto simp: sorted_iff_nth_mono)
        with ge show "x \<le> a ! k" by simp
      qed
      have eq: "bisect_left_loop a x lo hi = bisect_left_loop a x lo mid"
        using True ge by (subst bisect_left_loop.simps) (simp add: mid_def Let_def)
      have "bisect_left_loop a x lo mid \<le> length a
         \<and> (\<forall>k<bisect_left_loop a x lo mid. a ! k < x)
         \<and> (\<forall>k. bisect_left_loop a x lo mid \<le> k \<and> k < length a \<longrightarrow> x \<le> a ! k)"
        using "1.IH"(2) [OF True mid_def ge] "1.prems" mid above by simp
      then show ?thesis unfolding eq .
    qed
  qed
qed

lemma bisect_left_spec:
  assumes "sorted a"
  shows "bisect_left a x \<le> length a"
    and "\<And>k. bisect_left a x \<le> k \<Longrightarrow> k < length a \<Longrightarrow> x \<le> a ! k"
    and "\<And>k. k < bisect_left a x \<Longrightarrow> a ! k < x"
  using bisect_left_loop_spec [OF assms, of 0 "length a" x] by (auto simp: bisect_left_def)

subsection \<open>The candidate successor lists\<close>

lemma py_slice_elem:
  assumes "x \<in> set (py_slice xs lo hi)"
  shows "\<exists>k. lo \<le> k \<and> k < hi \<and> k < length xs \<and> x = xs ! k"
proof -
  from assms obtain q where q: "q < length (take (hi - lo) (drop lo xs))"
      "x = take (hi - lo) (drop lo xs) ! q"
    by (auto simp: py_slice_def in_set_conv_nth)
  then have "lo + q < length xs" "lo + q < hi" "x = xs ! (lo + q)"
    by auto
  then show ?thesis
    by (intro exI [of _ "lo + q"]) simp
qed

lemma order_by_start_set: "set (order_by_start observations) = {0..<length observations}"
  by (simp add: order_by_start_def)

lemma order_by_start_sorted:
  "sorted (map (\<lambda>k. map start observations ! k) (order_by_start observations))"
  by (simp add: order_by_start_def)

lemma scan_snd:
  assumes "map_err (\<lambda>idx. bind_err (f idx) (\<lambda>h. Inr (h, idx))) xs = Inr cand"
  shows "map snd cand = xs"
  using assms
proof (induction xs arbitrary: cand)
  case Nil
  then show ?case by simp
next
  case (Cons x xs)
  then show ?case
    by (auto simp: bind_err_Inr_iff)
qed

lemma successors_of_bounds:
  assumes "successors_of observations slew_matrix top_k i = Inr s"
    and "i < length observations"
  shows "length s \<le> top_k"
    and "\<And>j. j \<in> set s \<Longrightarrow> j < length observations
           \<and> endt (observations ! i) \<le> start (observations ! j)"
proof -
  define ord where "ord = order_by_start observations"
  define keys where "keys = map (\<lambda>k. map start observations ! k) ord"
  define pos where "pos = bisect_left keys (map endt observations ! i)"
  define scan_limit where "scan_limit = min (length ord) (pos + top_k * 5)"
  from assms(1) obtain cand where
    cand: "map_err (\<lambda>idx. bind_err (edge_heuristic observations slew_matrix i idx)
                          (\<lambda>h. Inr (h, idx))) (py_slice ord pos scan_limit) = Inr cand"
    and s: "s = map snd (if top_k < length (rev (sort cand))
                         then take top_k (rev (sort cand)) else rev (sort cand))"
    by (auto simp: successors_of_def Let_def bind_err_Inr_iff ord_def keys_def pos_def
        scan_limit_def)
  show "length s \<le> top_k"
    by (simp add: s)
  have sorted: "sorted keys"
    unfolding keys_def ord_def by (rule order_by_start_sorted)
  fix j assume "j \<in> set s"
  then obtain h where "(h, j) \<in> set (rev (sort cand))"
    by (auto simp: s split: if_splits dest: in_set_takeD)
  then have "j \<in> snd ` set cand"
    by force
  then have "j \<in> set (py_slice ord pos scan_limit)"
    using scan_snd [OF cand] by (metis set_map)
  from py_slice_elem [OF this] obtain k where k: "pos \<le> k" "k < length ord" "j = ord ! k"
    by auto
  have "j \<in> set ord"
    unfolding k(3) using k(2) by (rule nth_mem)
  then have jn: "j < length observations"
    by (simp add: ord_def order_by_start_set)
  have klen: "k < length keys"
    using k(2) by (simp add: keys_def)
  have "bisect_left keys (map endt observations ! i) \<le> k"
    using k(1) by (simp only: pos_def)
  then have "map endt observations ! i \<le> keys ! k"
    using klen by (rule bisect_left_spec(2) [OF sorted])
  moreover have "keys ! k = start (observations ! j)"
    using k(2) jn by (simp add: keys_def k(3))
  moreover have "map endt observations ! i = endt (observations ! i)"
    using assms(2) by simp
  ultimately have "endt (observations ! i) \<le> start (observations ! j)"
    by simp
  with jn show "j < length observations \<and> endt (observations ! i) \<le> start (observations ! j)"
    by simp
qed

lemma build_successors_length:
  "build_successors observations slew_matrix top_k = Inr successors
   \<Longrightarrow> length successors = length observations"
  by (auto simp: build_successors_def dest: map_err_length)

lemma build_successors_nth:
  "build_successors observations slew_matrix top_k = Inr successors \<Longrightarrow> i < length observations
   \<Longrightarrow> successors_of observations slew_matrix top_k i = Inr (successors ! i)"
  using map_err_nth [of "successors_of observations slew_matrix top_k"
      "[0..<length observations]" successors i]
  by (simp add: build_successors_def)

section \<open>Example data\<close>

text \<open>
  A task as \<open>load_observations\<close> of process_dataset.py builds it: the duration is
  \<open>end - start\<close>; the sky position plays no part in the solvers.
\<close>

definition task :: "string \<Rightarrow> real \<Rightarrow> real \<Rightarrow> real \<Rightarrow> observation" where
  "task name s e w =
     \<lparr>oid = name, start = s, endt = e, duration = e - s, ra = 0, dec = 0, weight = w\<rparr>"

section \<open>The pheromone table stays on candidate edges\<close>

text \<open>
  The key set of every row \<open>pher[i]\<close> lies in \<open>successors[i]\<close>, and the table has one
  row per candidate list.
\<close>

definition pher_sparse :: "nat list list \<Rightarrow> row list \<Rightarrow> bool" where
  "pher_sparse successors pher =
     list_all2 (\<lambda>s r. list_all (\<lambda>(j, v). j \<in> set s) r) successors pher"

lemma pher_sparse_iff:
  "pher_sparse successors pher \<longleftrightarrow>
     length pher = length successors
     \<and> (\<forall>i<length pher. fst ` set (pher ! i) \<subseteq> set (successors ! i))"
  by (fastforce simp: pher_sparse_def list_all2_conv_all_nth list_all_iff)

lemma dict_set_keys: "fst ` set (dict_set r j v) = insert j (fst ` set r)"
  by (simp add: dict_set_def dom_update)

lemma fold_dict_set_keys:
  "fst ` set (fold (\<lambda>j r. dict_set r j v) s r0) = set s \<union> fst ` set r0"
  by (induction s arbitrary: r0) (auto simp: dict_set_keys)

lemma init_pheromone_sparse: "pher_sparse successors (init_pheromone successors)"
  by (simp add: pher_sparse_iff init_pheromone_def fold_dict_set_keys)

lemma evaporate_row_keys: "fst ` set (evaporate_row evap r) \<subseteq> fst ` set r"
  by (force simp: evaporate_row_def)

lemma evaporate_sparse:
  "pher_sparse successors pher \<Longrightarrow> pher_sparse successors (evaporate evap pher)"
  using evaporate_row_keys by (fastforce simp: pher_sparse_iff evaporate_def)

lemma dict_mem_iff: "dict_mem j r \<longleftrightarrow> j \<in> fst ` set r"
  by (simp add: dict_mem_def map_of_eq_None_iff)

lemma pher_sparse_update:
  assumes "pher_sparse successors pher" "a < length pher"
    and "fst ` set r \<subseteq> set (successors ! a)"
  shows "pher_sparse successors (pher[a := r])"
  using assms by (auto simp: pher_sparse_iff nth_list_update)

lemma deposit_loop_sparse:
  "deposit_loop successors deposit tour pher = Inr pher' \<Longrightarrow> pher_sparse successors pher
   \<Longrightarrow> pher_sparse successors pher'"
proof (induction successors deposit tour pher rule: deposit_loop.induct)
  case (1 successors deposit a b rest pher)
  from "1.prems"(1) obtain r where r: "list_get pher a = Inr r"
    by (auto simp: bind_err_Inr_iff)
  then have a: "a < length pher" and ra: "r = pher ! a"
    by (simp_all add: list_get_Inr_iff)
  have keys: "fst ` set r \<subseteq> set (successors ! a)"
    using "1.prems"(2) a ra by (simp add: pher_sparse_iff)
  show ?case
  proof (cases "dict_mem b r")
    case True
    then have "b \<in> set (successors ! a)"
      using keys by (auto simp: dict_mem_iff)
    then have "pher_sparse successors (pher[a := dict_set r b (dict_get r b 0 + deposit)])"
      using keys by (intro pher_sparse_update [OF "1.prems"(2) a]) (simp add: dict_set_keys)
    moreover have "deposit_loop successors deposit (b # rest)
        (pher[a := dict_set r b (dict_get r b 0 + deposit)]) = Inr pher'"
      using "1.prems"(1) r True by simp
    ultimately show ?thesis
      using "1.IH"(1) [OF r True] by simp
  next
    case False
    from "1.prems"(1) r False obtain sa where sa: "list_get successors a = Inr sa"
      by (auto simp: bind_err_Inr_iff)
    then have sa_eq: "sa = successors ! a"
      by (simp add: list_get_Inr_iff)
    show ?thesis
    proof (cases "b \<in> set sa")
      case True
      then have "pher_sparse successors (pher[a := dict_set r b (init_pher + deposit)])"
        using keys sa_eq
        by (intro pher_sparse_update [OF "1.prems"(2) a]) (simp add: dict_set_keys)
      moreover have "deposit_loop successors deposit (b # rest)
          (pher[a := dict_set r b (init_pher + deposit)]) = Inr pher'"
        using "1.prems"(1) r False sa True by simp
      ultimately show ?thesis
        using "1.IH"(2) [OF r False sa True] by simp
    next
      case nb: False
      have "deposit_loop successors deposit (b # rest) pher = Inr pher'"
        using "1.prems"(1) r False sa nb by simp
      then show ?thesis
        using "1.IH"(3) [OF r False sa nb] "1.prems"(2) by simp
    qed
  qed
qed simp_all

lemma deposit_pheromone_sparse:
  "deposit_pheromone successors lbs lb pher = Inr pher' \<Longrightarrow> pher_sparse successors pher
   \<Longrightarrow> pher_sparse successors pher'"
  by (auto simp: deposit_pheromone_def Let_def split: option.splits if_splits
      dest: deposit_loop_sparse)

lemma aco_iteration_InrE:
  assumes "aco_iteration observations successors heuristic num_ants alpha beta evap st = Inr st'"
  obtains s pher2 where
    "ants_loop observations successors (trails st) heuristic alpha beta num_ants
       \<lparr>local_best_score = 0, local_best = None, best_score = global_best_score st,
        best_schedule = global_best_schedule st, gen = generator st\<rparr> = Inr s"
    "deposit_pheromone successors (local_best_score s) (local_best s)
       (evaporate evap (trails st)) = Inr pher2"
    "st' = \<lparr>trails = pher2, global_best_score = best_score s,
           global_best_schedule = best_schedule s, generator = gen s\<rparr>"
proof -
  from assms obtain s where
    s: "ants_loop observations successors (trails st) heuristic alpha beta num_ants
       \<lparr>local_best_score = 0, local_best = None, best_score = global_best_score st,
        best_schedule = global_best_schedule st, gen = generator st\<rparr> = Inr s"
    and r: "bind_err (deposit_pheromone successors (local_best_score s) (local_best s)
                (evaporate evap (trails st)))
            (\<lambda>pher2. Inr \<lparr>trails = pher2, global_best_score = best_score s,
                    global_best_schedule = best_schedule s, generator = gen s\<rparr>) = Inr st'"
    unfolding aco_iteration_def Let_def bind_err_Inr_iff by blast
  from r obtain pher2 where
    "deposit_pheromone successors (local_best_score s) (local_best s)
       (evaporate evap (trails st)) = Inr pher2"
    "st' = \<lparr>trails = pher2, global_best_score = best_score s,
           global_best_schedule = best_schedule s, generator = gen s\<rparr>"
    unfolding bind_err_Inr_iff by auto
  with s show thesis
    by (rule that)
qed

lemma aco_iteration_sparse:
  assumes "aco_iteration observations successors heuristic num_ants alpha beta evap st = Inr st'"
    and "pher_sparse successors (trails st)"
  shows "pher_sparse successors (trails st')"
proof -
  from assms(1) obtain s :: ants_state and pher2 where
    dep: "deposit_pheromone successors (local_best_score s) (local_best s)
            (evaporate evap (trails st)) = Inr pher2"
    and st': "st' = \<lparr>trails = pher2, global_best_score = best_score s,
           global_best_schedule = best_schedule s, generator = gen s\<rparr>"
    by (rule aco_iteration_InrE)
  have "pher_sparse successors pher2"
    by (rule deposit_pheromone_sparse [OF dep evaporate_sparse [OF assms(2)]])
  then show ?thesis
    by (simp add: st')
qed

lemma aco_loop_sparse:
  "aco_loop observations successors heuristic num_ants alpha beta evap k st = Inr st'
   \<Longrightarrow> pher_sparse successors (trails st) \<Longrightarrow> pher_sparse successors (trails st')"
proof (induction k arbitrary: st)
  case 0
  then show ?case by simp
next
  case (Suc k)
  from Suc.prems(1) obtain st1 where
    it: "aco_iteration observations successors heuristic num_ants alpha beta evap st = Inr st1"
    and rest: "aco_loop observations successors heuristic num_ants alpha beta evap k st1 = Inr st'"
    by (auto simp: bind_err_Inr_iff)
  show ?case
    by (rule Suc.IH [OF rest aco_iteration_sparse [OF it Suc.prems(2)]])
qed

text \<open>The states of a run: \<open>k + m\<close> iterations are \<open>k\<close> iterations followed by \<open>m\<close>.\<close>

lemma aco_loop_add:
  "aco_loop observations successors heuristic num_ants alpha beta evap (k + m) st =
     bind_err (aco_loop observations successors heuristic num_ants alpha beta evap k st)
       (aco_loop observations successors heuristic num_ants alpha beta evap m)"
proof (induction k arbitrary: st)
  case 0
  then show ?case by simp
next
  case (Suc k)
  show ?case
    by (cases "aco_iteration observations successors heuristic num_ants alpha beta evap st")
      (simp_all add: Suc.IH)
qed

text \<open>A generator for the examples: the \<open>k\<close>-th draw is \<open>k\<close> as an integer, one half as a float.\<close>

definition example_rng :: rng where
  "example_rng = \<lparr>draws = (\<lambda>k. (k, 1 / 2)), taken = 0\<rparr>"

section \<open>The tracked best score never decreases\<close>

lemma ants_loop_best_score_mono:
  "ants_loop observations successors pher heuristic alpha beta k s = Inr s'
   \<Longrightarrow> best_score s \<le> best_score s'"
proof (induction k arbitrary: s)
  case 0
  then show ?case by simp
next
  case (Suc k)
  from Suc.prems obtain tour g' score where
    rest: "ants_loop observations successors pher heuristic alpha beta k
             ((let s1 = (if score > local_best_score s
                         then s\<lparr>local_best_score := score, local_best := Some tour\<rparr> else s);
                   s2 = (if score > best_score s1
                         then s1\<lparr>best_score := score, best_schedule := tour\<rparr> else s1)
               in s2\<lparr>gen := g'\<rparr>)) = Inr s'"
    by (auto simp: bind_err_Inr_iff Let_def)
  have "best_score s \<le> best_score
           ((let s1 = (if score > local_best_score s
                         then s\<lparr>local_best_score := score, local_best := Some tour\<rparr> else s);
                   s2 = (if score > best_score s1
                         then s1\<lparr>best_score := score, best_schedule := tour\<rparr> else s1)
               in s2\<lparr>gen := g'\<rparr>))"
    by (simp add: Let_def)
  also have "\<dots> \<le> best_score s'"
    by (rule Suc.IH [OF rest])
  finally show ?case .
qed

lemma aco_iteration_best_score_mono:
  assumes "aco_iteration observations successors heuristic num_ants alpha beta evap st = Inr st'"
  shows "global_best_score st \<le> global_best_score st'"
proof -
  from assms obtain s :: ants_state and pher2 where
    ants: "ants_loop observations successors (trails st) heuristic alpha beta num_ants
       \<lparr>local_best_score = 0, local_best = None, best_score = global_best_score st,
        best_schedule = global_best_schedule st, gen = generator st\<rparr> = Inr s"
    and st': "st' = \<lparr>trails = pher2, global_best_score = best_score s,
           global_best_schedule = best_schedule s, generator = gen s\<rparr>"
    by (rule aco_iteration_InrE)
  show ?thesis
    using ants_loop_best_score_mono [OF ants] by (simp add: st')
qed

lemma aco_loop_best_score_mono:
  "aco_loop observations successors heuristic num_ants alpha beta evap k st = Inr st'
   \<Longrightarrow> global_best_score st \<le> global_best_score st'"
proof (induction k arbitrary: st)
  case 0
  then show ?case by simp
next
  case (Suc k)
  from Suc.prems obtain st1 where
    it: "aco_iteration observations successors heuristic num_ants alpha beta evap st = Inr st1"
    and rest: "aco_loop observations successors heuristic num_ants alpha beta evap k st1 = Inr st'"
    by (auto simp: bind_err_Inr_iff)
  show ?case
    using aco_iteration_best_score_mono [OF it] Suc.IH [OF rest] by simp
qed

section \<open>Tours are feasible\<close>

lemma tour_candidates_feasible:
  "tour_candidates observations pher heuristic alpha beta used last_idx js = Inr cand
   \<Longrightarrow> (s, j) \<in> set cand
   \<Longrightarrow> j \<in> set js \<and> j < length observations \<and> last_idx < length observations
       \<and> endt (observations ! last_idx) \<le> start (observations ! j)"
proof (induction js arbitrary: cand)
  case Nil
  then show ?case by simp
next
  case (Cons k js)
  then show ?case
    by (auto simp: bind_err_Inr_iff list_get_Inr_iff split: if_splits)
qed

text \<open>
  The invariant of the loop of \<open>build_ant_tour\<close>: the chosen indices are task indices,
  marked used, without repetition, and each one starts no earlier than its predecessor ends.
\<close>

definition chain_feasible :: "observation list \<Rightarrow> nat list \<Rightarrow> bool" where
  "chain_feasible observations tour =
     successively (\<lambda>a b. endt (observations ! a) \<le> start (observations ! b)) tour"

definition tour_inv :: "observation list \<Rightarrow> nat list \<Rightarrow> bool list \<Rightarrow> bool" where
  "tour_inv observations selected used \<longleftrightarrow>
     distinct selected
     \<and> list_all (\<lambda>j. j < length used \<and> used ! j \<and> j < length observations) selected
     \<and> chain_feasible observations selected"

definition good_tour :: "observation list \<Rightarrow> nat list \<Rightarrow> bool" where
  "good_tour observations tour \<longleftrightarrow>
     distinct tour \<and> list_all (\<lambda>j. j < length observations) tour
     \<and> chain_feasible observations tour"

lemma chain_feasible_snoc:
  "selected \<noteq> [] \<Longrightarrow>
   chain_feasible observations (selected @ [c]) \<longleftrightarrow>
     chain_feasible observations selected
     \<and> endt (observations ! last selected) \<le> start (observations ! c)"
  by (auto simp: chain_feasible_def successively_append_iff)

lemma tour_loop_good:
  "tour_loop observations successors pher heuristic alpha beta selected used g = Inr (tour, g')
   \<Longrightarrow> tour_inv observations selected used \<Longrightarrow> good_tour observations tour"
proof (induction observations successors pher heuristic alpha beta selected used g
    rule: tour_loop.induct)
  case (1 observations successors pher heuristic alpha beta selected used g)
  from "1.prems"(1) have ne: "selected \<noteq> []"
    by (subst (asm) tour_loop.simps) (auto split: if_splits)
  from "1.prems"(1) ne obtain succ cand where
    succ: "list_get successors (last selected) = Inr succ"
    and cand: "tour_candidates observations pher heuristic alpha beta used (last selected) succ
                 = Inr cand"
    and res: "(if cand = [] then Inr (selected, g)
               else (case choose_next cand g of (chosen, g1) \<Rightarrow>
                 tour_loop observations successors pher heuristic alpha beta
                   (selected @ [chosen]) (used[chosen := True]) g1)) = Inr (tour, g')"
    by (subst (asm) tour_loop.simps) (auto simp: bind_err_Inr_iff Let_def)
  show ?case
  proof (cases "cand = []")
    case True
    with res have "tour = selected" by simp
    with "1.prems"(2) show ?thesis
      by (auto simp: tour_inv_def good_tour_def list_all_iff)
  next
    case False
    obtain chosen g1 where ch: "choose_next cand g = (chosen, g1)"
      by (cases "choose_next cand g")
    with res False have rec: "tour_loop observations successors pher heuristic alpha beta
                   (selected @ [chosen]) (used[chosen := True]) g1 = Inr (tour, g')"
      by simp
    have "chosen \<in> snd ` set cand"
      using choose_next_in_set [OF False, of g] ch by simp
    then obtain s where mem: "(s, chosen) \<in> set cand"
      by auto
    have un: "chosen < length used" "\<not> used ! chosen"
      using tour_candidates_unused [OF cand mem] by simp_all
    have fe: "chosen < length observations"
      "endt (observations ! last selected) \<le> start (observations ! chosen)"
      using tour_candidates_feasible [OF cand mem] by simp_all
    have notin: "chosen \<notin> set selected"
      using "1.prems"(2) un by (auto simp: tour_inv_def list_all_iff)
    have "tour_inv observations (selected @ [chosen]) (used[chosen := True])"
      using "1.prems"(2) un fe notin ne
      by (auto simp: tour_inv_def list_all_iff chain_feasible_snoc nth_list_update)
    then show ?thesis
      using "1.IH" [OF ne refl succ cand False ch [symmetric] rec] by simp
  qed
qed

lemma random_randrange_InrE:
  assumes "random_randrange n g = Inr (i, g1)"
  shows "i < n"
  using assms by (auto simp: random_randrange_def split: if_splits)

lemma build_ant_tour_good:
  assumes "build_ant_tour observations successors pher heuristic alpha beta g = Inr (tour, g')"
  shows "good_tour observations tour"
proof -
  from assms obtain start_idx g1 where
    rr: "random_randrange (length observations) g = Inr (start_idx, g1)"
    and tl: "tour_loop observations successors pher heuristic alpha beta [start_idx]
               ((replicate (length observations) False)[start_idx := True]) g1 = Inr (tour, g')"
    by (auto simp: build_ant_tour_def Let_def bind_err_Inr_iff)
  have "start_idx < length observations"
    using rr by (rule random_randrange_InrE)
  then have "tour_inv observations [start_idx]
               ((replicate (length observations) False)[start_idx := True])"
    by (simp add: tour_inv_def chain_feasible_def)
  then show ?thesis
    by (rule tour_loop_good [OF tl])
qed

lemma ants_loop_good:
  "ants_loop observations successors pher heuristic alpha beta k s = Inr s'
   \<Longrightarrow> good_tour observations (best_schedule s)
   \<Longrightarrow> good_tour observations (best_schedule s')"
proof (induction k arbitrary: s)
  case 0
  then show ?case by simp
next
  case (Suc k)
  from Suc.prems(1) obtain tour g' score where
    bt: "build_ant_tour observations successors pher heuristic alpha beta (gen s) = Inr (tour, g')"
    and rest: "ants_loop observations successors pher heuristic alpha beta k
             ((let s1 = (if score > local_best_score s
                         then s\<lparr>local_best_score := score, local_best := Some tour\<rparr> else s);
                   s2 = (if score > best_score s1
                         then s1\<lparr>best_score := score, best_schedule := tour\<rparr> else s1)
               in s2\<lparr>gen := g'\<rparr>)) = Inr s'"
    by (auto simp: bind_err_Inr_iff Let_def)
  have "good_tour observations (best_schedule
           ((let s1 = (if score > local_best_score s
                         then s\<lparr>local_best_score := score, local_best := Some tour\<rparr> else s);
                   s2 = (if score > best_score s1
                         then s1\<lparr>best_score := score, best_schedule := tour\<rparr> else s1)
               in s2\<lparr>gen := g'\<rparr>)))"
    using build_ant_tour_good [OF bt] Suc.prems(2) by (simp add: Let_def)
  then show ?case
    by (rule Suc.IH [OF rest])
qed

lemma aco_iteration_good:
  assumes "aco_iteration observations successors heuristic num_ants alpha beta evap st = Inr st'"
    and "good_tour observations (global_best_schedule st)"
  shows "good_tour observations (global_best_schedule st')"
proof -
  from assms(1) obtain s :: ants_state and pher2 where
    ants: "ants_loop observations successors (trails st) heuristic alpha beta num_ants
       \<lparr>local_best_score = 0, local_best = None, best_score = global_best_score st,
        best_schedule = global_best_schedule st, gen = generator st\<rparr> = Inr s"
    and st': "st' = \<lparr>trails = pher2, global_best_score = best_score s,
           global_best_schedule = best_schedule s, generator = gen s\<rparr>"
    by (rule aco_iteration_InrE)
  show ?thesis
    using ants_loop_good [OF ants] assms(2) by (simp add: st')
qed

lemma aco_loop_good:
  "aco_loop observations successors heuristic num_ants alpha beta evap k st = Inr st'
   \<Longrightarrow> good_tour observations (global_best_schedule st)
   \<Longrightarrow> good_tour observations (global_best_schedule st')"
proof (induction k arbitrary: st)
  case 0
  then show ?case by simp
next
  case (Suc k)
  from Suc.prems(1) obtain st1 where
    it: "aco_iteration observations successors heuristic num_ants alpha beta evap st = Inr st1"
    and rest: "aco_loop observations successors heuristic num_ants alpha beta evap k st1 = Inr st'"
    by (auto simp: bind_err_Inr_iff)
  show ?case
    by (rule Suc.IH [OF rest aco_iteration_good [OF it Suc.prems(2)]])
qed

subsection \<open>From a feasible chain to pairwise non-overlap\<close>

lemma non_overlapping_sorted_wrt: "non_overlapping xs \<longleftrightarrow> sorted_wrt compatible xs"
  by (induction xs) (auto simp: list_all_iff)

lemma valid_chain_sorted_wrt:
  assumes "\<forall>x\<in>set xs. start x < endt x"
    and "successively (\<lambda>x y. endt x \<le> start y) xs"
  shows "sorted_wrt (\<lambda>x y. endt x \<le> start y) xs"
  using assms
proof (induction xs)
  case Nil
  then show ?case by simp
next
  case (Cons x xs)
  show ?case
  proof (cases xs)
    case Nil
    then show ?thesis by simp
  next
    case (Cons y ys)
    have sw: "sorted_wrt (\<lambda>x y. endt x \<le> start y) xs"
      using Cons.IH Cons.prems by (simp add: local.Cons)
    have xy: "endt x \<le> start y"
      using Cons.prems(2) by (simp add: local.Cons)
    have "endt x \<le> start z" if "z \<in> set xs" for z
    proof (cases "z = y")
      case True
      with xy show ?thesis by simp
    next
      case False
      with that have "z \<in> set ys" by (simp add: local.Cons)
      then have "endt y \<le> start z"
        using sw by (simp add: local.Cons)
      moreover have "start y < endt y"
        using Cons.prems(1) by (simp add: local.Cons)
      ultimately show ?thesis
        using xy by simp
    qed
    with sw show ?thesis by simp
  qed
qed

lemma good_tour_tasks:
  assumes "good_tour observations tour" "valid_intervals observations"
  shows "sorted_wrt (\<lambda>x y. endt x \<le> start y) (map (\<lambda>i. observations ! i) tour)"
proof (rule valid_chain_sorted_wrt)
  show "\<forall>x\<in>set (map (\<lambda>i. observations ! i) tour). start x < endt x"
    using assms by (auto simp: good_tour_def valid_intervals_def list_all_iff)
  show "successively (\<lambda>x y. endt x \<le> start y) (map (\<lambda>i. observations ! i) tour)"
    using assms(1) by (simp add: good_tour_def chain_feasible_def successively_map)
qed

lemma sorted_wrt_insort_key_sym:
  assumes "symp P"
  shows "sorted_wrt P (insort_key f x xs) \<longleftrightarrow> (\<forall>y\<in>set xs. P x y) \<and> sorted_wrt P xs"
  using assms by (induction xs) (auto simp: set_insort_key dest: sympD)

lemma sorted_wrt_sort_key_sym:
  assumes "symp P"
  shows "sorted_wrt P (sort_key f xs) \<longleftrightarrow> sorted_wrt P xs"
  by (induction xs) (simp_all add: sorted_wrt_insort_key_sym [OF assms])

lemma symp_compatible: "symp compatible"
  by (auto simp: symp_def compatible_def)

lemma non_overlapping_sort_key: "non_overlapping (sort_key f xs) \<longleftrightarrow> non_overlapping xs"
  by (simp add: non_overlapping_sorted_wrt sorted_wrt_sort_key_sym [OF symp_compatible])

lemma non_overlapping_valid_distinct:
  "non_overlapping xs \<Longrightarrow> \<forall>x\<in>set xs. start x < endt x \<Longrightarrow> distinct xs"
proof (induction xs)
  case Nil
  then show ?case by simp
next
  case (Cons a xs)
  have "a \<notin> set xs"
  proof
    assume "a \<in> set xs"
    then have "compatible a a"
      using Cons.prems(1) by (simp add: list_all_iff)
    moreover have "start a < endt a"
      using Cons.prems(2) by simp
    ultimately show False
      by (simp add: compatible_def)
  qed
  then show ?case
    using Cons by simp
qed

lemma map_err_list_get:
  "map_err (list_get xs) is = Inr ys \<Longrightarrow> ys = map (\<lambda>i. xs ! i) is \<and> (\<forall>i\<in>set is. i < length xs)"
proof (induction "is" arbitrary: ys)
  case Nil
  then show ?case by simp
next
  case (Cons i "is")
  then show ?case by (auto simp: bind_err_Inr_iff list_get_Inr_iff)
qed

lemma good_tour_non_overlapping:
  assumes "good_tour observations tour" "valid_intervals observations"
  shows "non_overlapping (map (\<lambda>i. observations ! i) tour)"
proof -
  have "sorted_wrt compatible (map (\<lambda>i. observations ! i) tour)"
    by (rule sorted_wrt_mono_rel [OF _ good_tour_tasks [OF assms]]) (simp add: compatible_def)
  then show ?thesis
    by (simp add: non_overlapping_sorted_wrt)
qed

lemma good_tour_Nil: "good_tour observations []"
  by (simp add: good_tour_def chain_feasible_def)

text \<open>The schedule returned is the best tour found, as tasks, sorted by start.\<close>

lemma ant_colony_schedule_result:
  assumes "ant_colony_schedule observations slew_matrix num_ants alpha beta evap iterations
             top_k g = Inr sched"
  shows "\<exists>tour. good_tour observations tour
           \<and> sched = sort_key start (map (\<lambda>i. observations ! i) tour)"
proof (cases "length observations = 0")
  case True
  with assms have "sched = []"
    by (simp add: ant_colony_schedule_def)
  then show ?thesis
    using good_tour_Nil by (intro exI [of _ "[]"]) simp
next
  case False
  with assms obtain successors heuristic st where
    loop: "aco_loop observations successors heuristic num_ants alpha beta evap iterations
             (aco_init successors g) = Inr st"
    and res: "(if global_best_schedule st = [] then Inr []
               else bind_err (map_err (list_get observations) (global_best_schedule st))
                      (\<lambda>best_schedule_obs. Inr (sort_key start best_schedule_obs))) = Inr sched"
    by (auto simp: ant_colony_schedule_def Let_def bind_err_Inr_iff)
  have good: "good_tour observations (global_best_schedule st)"
    by (rule aco_loop_good [OF loop]) (simp add: aco_init_def good_tour_Nil)
  show ?thesis
  proof (cases "global_best_schedule st = []")
    case True
    with res have "sched = []" by simp
    then show ?thesis
      using good_tour_Nil by (intro exI [of _ "[]"]) simp
  next
    case ne: False
    with res obtain bso where
      bso: "map_err (list_get observations) (global_best_schedule st) = Inr bso"
      and sched: "sched = sort_key start bso"
      by (auto simp: bind_err_Inr_iff)
    have "bso = map (\<lambda>i. observations ! i) (global_best_schedule st)"
      using map_err_list_get [OF bso] by simp
    with good sched show ?thesis
      by blast
  qed
qed

section \<open>When the ant-colony solver raises nothing\<close>

text \<open>
  The slew matrix covers the \<open>n\<close> tasks: it has at least \<open>n\<close> rows, and each of the first
  \<open>n\<close> rows has at least \<open>n\<close> entries.
\<close>

definition slew_covers :: "nat \<Rightarrow> real list list \<Rightarrow> bool" where
  "slew_covers n slew_matrix \<longleftrightarrow>
     n \<le> length slew_matrix \<and> list_all (\<lambda>r. n \<le> length r) (take n slew_matrix)"

definition weights_nonneg :: "observation list \<Rightarrow> bool" where
  "weights_nonneg observations = list_all (\<lambda>ob. 0 \<le> weight ob) observations"

definition rows_nonneg :: "nat \<Rightarrow> row list \<Rightarrow> bool" where
  "rows_nonneg n rows \<longleftrightarrow> length rows = n \<and> list_all (list_all (\<lambda>(j, v). 0 \<le> v)) rows"

definition succ_ok :: "nat \<Rightarrow> nat list list \<Rightarrow> bool" where
  "succ_ok n successors \<longleftrightarrow> length successors = n \<and> list_all (list_all (\<lambda>j. j < n)) successors"

lemma py_pow_nonneg:
  assumes "0 \<le> x" "0 \<le> y"
  shows "\<exists>v. py_pow x y = Inr v"
proof (cases "x = 0")
  case True
  with assms show ?thesis by (simp add: py_pow_def)
next
  case False
  with assms have "\<not> x < 0" by simp
  with False show ?thesis by (simp add: py_pow_def)
qed

lemma slew_at_total:
  assumes "slew_covers n slew_matrix" "i < n" "j < n"
  shows "\<exists>s. slew_at slew_matrix i j = Inr s"
proof -
  have i: "i < length slew_matrix"
    using assms by (simp add: slew_covers_def)
  have "take n slew_matrix ! i \<in> set (take n slew_matrix)"
    using assms(2) i by (intro nth_mem) simp
  then have "slew_matrix ! i \<in> set (take n slew_matrix)"
    using assms(2) by simp
  then have "n \<le> length (slew_matrix ! i)"
    using assms(1) by (simp add: slew_covers_def list_all_iff)
  then show ?thesis
    using i assms(3) by (simp add: slew_at_def list_get_def)
qed

lemma edge_heuristic_total:
  assumes "slew_covers (length observations) slew_matrix"
    "i < length observations" "j < length observations"
  shows "\<exists>h. edge_heuristic observations slew_matrix i j = Inr h
           \<and> (weights_nonneg observations \<longrightarrow> 0 \<le> h)"
proof -
  obtain s where s: "slew_at slew_matrix i j = Inr s"
    using slew_at_total [OF assms] by blast
  have "weights_nonneg observations \<Longrightarrow> 0 \<le> weight (observations ! j) / max s 1"
    using assms(3) by (simp add: weights_nonneg_def list_all_length)
  then show ?thesis
    using s assms(3) by (simp add: edge_heuristic_def list_get_def Let_def)
qed

lemma successors_of_total:
  assumes "slew_covers (length observations) slew_matrix" "i < length observations"
  shows "\<exists>s. successors_of observations slew_matrix top_k i = Inr s"
proof -
  define ord where "ord = order_by_start observations"
  define pos where "pos = bisect_left (map (\<lambda>k. map start observations ! k) ord)
                            (map endt observations ! i)"
  define scan_limit where "scan_limit = min (length ord) (pos + top_k * 5)"
  have "\<exists>y. bind_err (edge_heuristic observations slew_matrix i idx) (\<lambda>h. Inr (h, idx)) = Inr y"
    if "idx \<in> set (py_slice ord pos scan_limit)" for idx
  proof -
    have "idx \<in> set ord"
      using that by (auto simp: py_slice_def dest: in_set_takeD in_set_dropD)
    then have "idx < length observations"
      by (simp add: ord_def order_by_start_set)
    then obtain h where "edge_heuristic observations slew_matrix i idx = Inr h"
      using edge_heuristic_total [OF assms] by blast
    then show ?thesis by simp
  qed
  then have "\<exists>cand. map_err (\<lambda>idx. bind_err (edge_heuristic observations slew_matrix i idx)
                          (\<lambda>h. Inr (h, idx))) (py_slice ord pos scan_limit) = Inr cand"
    by (rule map_err_total)
  then obtain cand where
    "map_err (\<lambda>idx. bind_err (edge_heuristic observations slew_matrix i idx)
                          (\<lambda>h. Inr (h, idx))) (py_slice ord pos scan_limit) = Inr cand"
    by (rule exE)
  then show ?thesis
    by (simp add: successors_of_def Let_def ord_def pos_def scan_limit_def)
qed

lemma build_successors_total:
  assumes "slew_covers (length observations) slew_matrix"
  shows "\<exists>successors. build_successors observations slew_matrix top_k = Inr successors"
  unfolding build_successors_def
  by (rule map_err_total) (simp add: successors_of_total [OF assms])

lemma build_successors_succ_ok:
  assumes "build_successors observations slew_matrix top_k = Inr successors"
  shows "succ_ok (length observations) successors"
proof -
  have len: "length successors = length observations"
    by (rule build_successors_length [OF assms])
  have "j < length observations" if "i < length observations" "j \<in> set (successors ! i)" for i j
    using successors_of_bounds(2) [OF build_successors_nth [OF assms that(1)] that(1) that(2)]
    by simp
  then have "\<forall>i<length successors. \<forall>j\<in>set (successors ! i). j < length observations"
    by (simp add: len)
  then have "list_all (list_all (\<lambda>j. j < length observations)) successors"
    unfolding list_all_length [of _ successors] list_all_iff [of _ "successors ! _"] .
  then show ?thesis
    by (simp add: succ_ok_def len)
qed

lemma dict_set_elem:
  "(a, b) \<in> set (dict_set r k v) \<Longrightarrow> (a, b) = (k, v) \<or> (a, b) \<in> set r"
  unfolding dict_set_def by (induction r) (auto split: if_splits)

lemma dict_set_nonneg:
  "list_all (\<lambda>(j, v). 0 \<le> v) r \<Longrightarrow> 0 \<le> v \<Longrightarrow> list_all (\<lambda>(j, v). 0 \<le> v) (dict_set r k v)"
  unfolding list_all_iff using dict_set_elem by fastforce

lemma dict_get_nonneg:
  "list_all (\<lambda>(j, v). 0 \<le> v) r \<Longrightarrow> 0 \<le> d \<Longrightarrow> 0 \<le> dict_get r j d"
  by (auto simp: dict_get_def list_all_iff split: option.splits dest: map_of_SomeD)

lemma heuristic_row_total:
  assumes "slew_covers (length observations) slew_matrix" "i < length observations"
    and "list_all (\<lambda>j. j < length observations) js"
  shows "\<exists>r'. heuristic_row observations slew_matrix i js r = Inr r'
           \<and> (weights_nonneg observations \<longrightarrow> list_all (\<lambda>(j, v). 0 \<le> v) r
               \<longrightarrow> list_all (\<lambda>(j, v). 0 \<le> v) r')"
  using assms(3)
proof (induction js arbitrary: r)
  case Nil
  then show ?case by simp
next
  case (Cons j js)
  then have j: "j < length observations" and js: "list_all (\<lambda>j. j < length observations) js"
    by simp_all
  obtain h where h: "edge_heuristic observations slew_matrix i j = Inr h"
    and hn: "weights_nonneg observations \<longrightarrow> 0 \<le> h"
    using edge_heuristic_total [OF assms(1,2) j] by blast
  obtain r' where r': "heuristic_row observations slew_matrix i js (dict_set r j h) = Inr r'"
    and rn: "weights_nonneg observations \<longrightarrow> list_all (\<lambda>(j, v). 0 \<le> v) (dict_set r j h)
               \<longrightarrow> list_all (\<lambda>(j, v). 0 \<le> v) r'"
    using Cons.IH [OF js, of "dict_set r j h"] by blast
  have "heuristic_row observations slew_matrix i (j # js) r = Inr r'"
    using h r' by simp
  moreover have "weights_nonneg observations \<longrightarrow> list_all (\<lambda>(j, v). 0 \<le> v) r
               \<longrightarrow> list_all (\<lambda>(j, v). 0 \<le> v) r'"
    using hn rn dict_set_nonneg by blast
  ultimately show ?case by blast
qed

lemma succ_ok_nth:
  "succ_ok n successors \<Longrightarrow> i < n \<Longrightarrow> list_all (\<lambda>j. j < n) (successors ! i)"
  by (simp add: succ_ok_def list_all_length)

lemma build_heuristic_total:
  assumes "slew_covers (length observations) slew_matrix"
    and "succ_ok (length observations) successors"
  shows "\<exists>heuristic. build_heuristic observations slew_matrix successors = Inr heuristic"
proof -
  have len: "length successors = length observations"
    using assms(2) by (simp add: succ_ok_def)
  have "\<exists>y. heuristic_row observations slew_matrix i (successors ! i) [] = Inr y"
    if "i \<in> set [0..<length successors]" for i
  proof -
    have i: "i < length observations"
      using that len by simp
    show ?thesis
      using heuristic_row_total [OF assms(1) i succ_ok_nth [OF assms(2) i], of "[]"] by blast
  qed
  then show ?thesis
    unfolding build_heuristic_def by (rule map_err_total)
qed

lemma build_heuristic_nonneg:
  assumes "build_heuristic observations slew_matrix successors = Inr heuristic"
    and "slew_covers (length observations) slew_matrix"
    and "succ_ok (length observations) successors"
    and "weights_nonneg observations"
  shows "rows_nonneg (length observations) heuristic"
proof -
  have len: "length successors = length observations"
    using assms(3) by (simp add: succ_ok_def)
  have hlen: "length heuristic = length observations"
    using map_err_length [OF assms(1) [unfolded build_heuristic_def]] len by simp
  have "list_all (\<lambda>(j, v). 0 \<le> v) (heuristic ! i)" if "i < length heuristic" for i
  proof -
    have i: "i < length observations"
      using that hlen by simp
    have "heuristic_row observations slew_matrix ([0..<length successors] ! i)
            (successors ! ([0..<length successors] ! i)) [] = Inr (heuristic ! i)"
      using i len by (intro map_err_nth [OF assms(1) [unfolded build_heuristic_def]]) simp
    then have "heuristic_row observations slew_matrix i (successors ! i) [] = Inr (heuristic ! i)"
      using i len by simp
    then show ?thesis
      using heuristic_row_total [OF assms(2) i succ_ok_nth [OF assms(3) i], of "[]"] assms(4)
      by auto
  qed
  then show ?thesis
    by (simp add: rows_nonneg_def hlen list_all_length)
qed

lemma rows_nonneg_nth:
  "rows_nonneg n rows \<Longrightarrow> i < n \<Longrightarrow> list_all (\<lambda>(j, v). 0 \<le> v) (rows ! i)"
  by (simp add: rows_nonneg_def list_all_length)

lemma tour_candidates_total:
  assumes "list_all (\<lambda>j. j < length observations) js"
    and "length used = length observations" "last_idx < length observations"
    and "rows_nonneg (length observations) pher" "rows_nonneg (length observations) heuristic"
    and "0 \<le> alpha" "0 \<le> beta"
  shows "\<exists>cand. tour_candidates observations pher heuristic alpha beta used last_idx js = Inr cand"
  using assms(1)
proof (induction js)
  case Nil
  then show ?case by simp
next
  case (Cons j js)
  then have j: "j < length observations" and js: "list_all (\<lambda>j. j < length observations) js"
    by simp_all
  obtain cand where
    cand: "tour_candidates observations pher heuristic alpha beta used last_idx js = Inr cand"
    using Cons.IH [OF js] by blast
  have u: "list_get used j = Inr (used ! j)"
    using j assms(2) by (simp add: list_get_def)
  have oj: "list_get observations j = Inr (observations ! j)"
    using j by (simp add: list_get_def)
  have ol: "list_get observations last_idx = Inr (observations ! last_idx)"
    using assms(3) by (simp add: list_get_def)
  have pr: "list_get pher last_idx = Inr (pher ! last_idx)"
    using assms(3,4) by (simp add: list_get_def rows_nonneg_def)
  have hr: "list_get heuristic last_idx = Inr (heuristic ! last_idx)"
    using assms(3,5) by (simp add: list_get_def rows_nonneg_def)
  have "0 \<le> dict_get (pher ! last_idx) j 0"
    by (rule dict_get_nonneg [OF rows_nonneg_nth [OF assms(4,3)]]) simp
  then obtain tau where tau: "py_pow (dict_get (pher ! last_idx) j 0) alpha = Inr tau"
    using py_pow_nonneg assms(6) by blast
  have "0 \<le> dict_get (heuristic ! last_idx) j 0"
    by (rule dict_get_nonneg [OF rows_nonneg_nth [OF assms(5,3)]]) simp
  then obtain eta where eta: "py_pow (dict_get (heuristic ! last_idx) j 0) beta = Inr eta"
    using py_pow_nonneg assms(7) by blast
  show ?case
    by (simp add: u oj ol pr hr tau eta cand)
qed

lemma tour_step_inv:
  assumes "tour_candidates observations pher heuristic alpha beta used (last selected) succ
             = Inr cand"
    and "cand \<noteq> []" "choose_next cand g = (chosen, g1)"
    and "tour_inv observations selected used" "selected \<noteq> []"
  shows "tour_inv observations (selected @ [chosen]) (used[chosen := True])"
proof -
  have "chosen \<in> snd ` set cand"
    using choose_next_in_set [OF assms(2), of g] assms(3) by simp
  then obtain s where mem: "(s, chosen) \<in> set cand"
    by auto
  have un: "chosen < length used" "\<not> used ! chosen"
    using tour_candidates_unused [OF assms(1) mem] by simp_all
  have fe: "chosen < length observations"
    "endt (observations ! last selected) \<le> start (observations ! chosen)"
    using tour_candidates_feasible [OF assms(1) mem] by simp_all
  have notin: "chosen \<notin> set selected"
    using assms(4) un by (auto simp: tour_inv_def list_all_iff)
  show ?thesis
    using assms(4,5) un fe notin
    by (auto simp: tour_inv_def list_all_iff chain_feasible_snoc nth_list_update)
qed

lemma tour_loop_total:
  assumes "succ_ok (length observations) successors"
    and "rows_nonneg (length observations) pher" "rows_nonneg (length observations) heuristic"
    and "0 \<le> alpha" "0 \<le> beta"
  shows "tour_inv observations selected used \<Longrightarrow> selected \<noteq> []
         \<Longrightarrow> length used = length observations
         \<Longrightarrow> \<exists>tour g'. tour_loop observations successors pher heuristic alpha beta selected used g
                = Inr (tour, g')"
  using assms
proof (induction observations successors pher heuristic alpha beta selected used g
    rule: tour_loop.induct)
  case (1 observations successors pher heuristic alpha beta selected used g)
  have last: "last selected < length observations"
    using "1.prems"(1,2) by (auto simp: tour_inv_def list_all_iff)
  have succ: "list_get successors (last selected) = Inr (successors ! last selected)"
    using last "1.prems"(4) by (simp add: list_get_def succ_ok_def)
  obtain cand where
    cand: "tour_candidates observations pher heuristic alpha beta used (last selected)
             (successors ! last selected) = Inr cand"
    using tour_candidates_total [OF succ_ok_nth [OF "1.prems"(4) last] "1.prems"(3) last
        "1.prems"(5,6,7,8)] by blast
  show ?case
  proof (cases "cand = []")
    case True
    then show ?thesis
      using "1.prems"(2) succ cand by (subst tour_loop.simps) simp
  next
    case False
    obtain chosen g1 where ch: "choose_next cand g = (chosen, g1)"
      by (cases "choose_next cand g")
    have inv: "tour_inv observations (selected @ [chosen]) (used[chosen := True])"
      by (rule tour_step_inv [OF cand False ch "1.prems"(1,2)])
    have "\<exists>tour g'. tour_loop observations successors pher heuristic alpha beta
            (selected @ [chosen]) (used[chosen := True]) g1 = Inr (tour, g')"
      using "1.IH" [OF "1.prems"(2) refl succ cand False ch [symmetric] inv] "1.prems"(3-8)
      by simp
    then show ?thesis
      using "1.prems"(2) succ cand False ch by (subst tour_loop.simps) simp
  qed
qed

lemma build_ant_tour_total:
  assumes "succ_ok (length observations) successors"
    and "rows_nonneg (length observations) pher" "rows_nonneg (length observations) heuristic"
    and "0 \<le> alpha" "0 \<le> beta" "observations \<noteq> []"
  shows "\<exists>tour g'. build_ant_tour observations successors pher heuristic alpha beta g
           = Inr (tour, g')"
proof -
  define start_idx where "start_idx = fst (draws g (taken g)) mod length observations"
  have lt: "start_idx < length observations"
    using assms(6) by (simp add: start_idx_def)
  have rr: "random_randrange (length observations) g
              = Inr (start_idx, g\<lparr>taken := taken g + 1\<rparr>)"
    using assms(6) by (simp add: random_randrange_def start_idx_def)
  have inv: "tour_inv observations [start_idx]
               ((replicate (length observations) False)[start_idx := True])"
    using lt by (simp add: tour_inv_def chain_feasible_def)
  have "\<exists>tour g'. tour_loop observations successors pher heuristic alpha beta [start_idx]
          ((replicate (length observations) False)[start_idx := True]) (g\<lparr>taken := taken g + 1\<rparr>)
          = Inr (tour, g')"
    by (rule tour_loop_total [OF assms(1-5) inv]) simp_all
  then show ?thesis
    by (simp add: build_ant_tour_def rr)
qed

lemma tour_score_total:
  assumes "good_tour observations tour"
  shows "tour_score observations tour = Inr (sum_list (map (\<lambda>i. weight (observations ! i)) tour))"
proof -
  have "list_all (\<lambda>j. j < length observations) tour"
    using assms by (simp add: good_tour_def)
  then have "map_err (list_get observations) tour = Inr (map (\<lambda>i. observations ! i) tour)"
    by (induction tour) (simp_all add: list_get_def)
  then show ?thesis
    by (simp add: tour_score_def comp_def)
qed

definition ants_inv :: "observation list \<Rightarrow> ants_state \<Rightarrow> bool" where
  "ants_inv observations s \<longleftrightarrow>
     good_tour observations (best_schedule s) \<and> 0 \<le> local_best_score s
     \<and> (case local_best s of None \<Rightarrow> True | Some t \<Rightarrow> good_tour observations t)"

lemma ants_loop_total:
  assumes "succ_ok (length observations) successors"
    and "rows_nonneg (length observations) pher" "rows_nonneg (length observations) heuristic"
    and "0 \<le> alpha" "0 \<le> beta" "observations \<noteq> []"
  shows "ants_inv observations s
         \<Longrightarrow> \<exists>s'. ants_loop observations successors pher heuristic alpha beta k s = Inr s'
                  \<and> ants_inv observations s'"
proof (induction k arbitrary: s)
  case 0
  then show ?case by simp
next
  case (Suc k)
  obtain tour g' where
    bt: "build_ant_tour observations successors pher heuristic alpha beta (gen s) = Inr (tour, g')"
    using build_ant_tour_total [OF assms] by blast
  have good: "good_tour observations tour"
    by (rule build_ant_tour_good [OF bt])
  define score where "score = sum_list (map (\<lambda>i. weight (observations ! i)) tour)"
  have ts: "tour_score observations tour = Inr score"
    unfolding score_def by (rule tour_score_total [OF good])
  define s2 where "s2 =
     (let s1 = (if score > local_best_score s
                then s\<lparr>local_best_score := score, local_best := Some tour\<rparr> else s);
          s2 = (if score > best_score s1
                then s1\<lparr>best_score := score, best_schedule := tour\<rparr> else s1)
      in s2\<lparr>gen := g'\<rparr>)"
  have "ants_inv observations s2"
    using Suc.prems good by (auto simp: s2_def ants_inv_def Let_def)
  then obtain s' where
    "ants_loop observations successors pher heuristic alpha beta k s2 = Inr s'"
    "ants_inv observations s'"
    using Suc.IH by blast
  then show ?case
    using bt ts by (simp add: s2_def Let_def)
qed

lemma evaporate_nonneg:
  "length pher = n \<Longrightarrow> rows_nonneg n (evaporate evap pher)"
  by (auto simp: rows_nonneg_def evaporate_def evaporate_row_def list_all_iff)

lemma rows_nonneg_update:
  assumes "rows_nonneg n pher" "list_all (\<lambda>(j, v). 0 \<le> v) r"
  shows "rows_nonneg n (pher[a := r])"
proof -
  have "list_all (\<lambda>(j, v). 0 \<le> v) (pher[a := r] ! i)" if "i < length pher" for i
    using assms that by (cases "i = a") (simp_all add: rows_nonneg_def list_all_length)
  then show ?thesis
    using assms(1) by (simp add: rows_nonneg_def list_all_length [of _ "pher[a := r]"])
qed

lemma deposit_loop_total:
  "list_all (\<lambda>j. j < n) tour \<Longrightarrow> rows_nonneg n pher \<Longrightarrow> length successors = n \<Longrightarrow> 0 \<le> deposit
   \<Longrightarrow> \<exists>pher'. deposit_loop successors deposit tour pher = Inr pher' \<and> rows_nonneg n pher'"
proof (induction successors deposit tour pher rule: deposit_loop.induct)
  case (1 successors deposit a b rest pher)
  have a: "a < n" and rest: "list_all (\<lambda>j. j < n) (b # rest)"
    using "1.prems"(1) by simp_all
  have len: "length pher = n"
    using "1.prems"(2) by (simp add: rows_nonneg_def)
  have r: "list_get pher a = Inr (pher ! a)"
    using a len by (simp add: list_get_def)
  have sa: "list_get successors a = Inr (successors ! a)"
    using a "1.prems"(3) by (simp add: list_get_def)
  have rn: "list_all (\<lambda>(j, v). 0 \<le> v) (pher ! a)"
    by (rule rows_nonneg_nth [OF "1.prems"(2) a])
  show ?case
  proof (cases "dict_mem b (pher ! a)")
    case True
    have "0 \<le> dict_get (pher ! a) b 0 + deposit"
      using dict_get_nonneg [OF rn, of 0 b] "1.prems"(4) by simp
    then have "rows_nonneg n (pher[a := dict_set (pher ! a) b (dict_get (pher ! a) b 0 + deposit)])"
      by (intro rows_nonneg_update [OF "1.prems"(2)] dict_set_nonneg [OF rn])
    then show ?thesis
      using "1.IH"(1) [OF r True rest _ "1.prems"(3,4)] r True by simp
  next
    case False
    show ?thesis
    proof (cases "b \<in> set (successors ! a)")
      case True
      have "0 \<le> init_pher + deposit"
        using "1.prems"(4) by (simp add: init_pher_def)
      then have "rows_nonneg n (pher[a := dict_set (pher ! a) b (init_pher + deposit)])"
        by (intro rows_nonneg_update [OF "1.prems"(2)] dict_set_nonneg [OF rn])
      then show ?thesis
        using "1.IH"(2) [OF r False sa True rest _ "1.prems"(3,4)] r False sa True by simp
    next
      case nb: False
      show ?thesis
        using "1.IH"(3) [OF r False sa nb rest "1.prems"(2,3,4)] r False sa nb by simp
    qed
  qed
qed simp_all

lemma deposit_pheromone_total:
  assumes "length successors = n" "0 \<le> lbs" "rows_nonneg n pher"
    and "case lb of None \<Rightarrow> True | Some t \<Rightarrow> list_all (\<lambda>j. j < n) t"
  shows "\<exists>pher'. deposit_pheromone successors lbs lb pher = Inr pher' \<and> rows_nonneg n pher'"
proof (cases lb)
  case None
  then show ?thesis
    using assms(3) by (simp add: deposit_pheromone_def)
next
  case (Some t)
  have "0 \<le> lbs / (1 + real (length t))"
    using assms(2) by simp
  then show ?thesis
    using deposit_loop_total [of n t pher successors "lbs / (1 + real (length t))"]
      assms(1,3,4) Some
    by (simp add: deposit_pheromone_def Let_def)
qed

lemma map_err_list_get_total:
  "list_all (\<lambda>j. j < length xs) js \<Longrightarrow> map_err (list_get xs) js = Inr (map (\<lambda>i. xs ! i) js)"
  by (induction js) (simp_all add: list_get_def)

definition aco_inv :: "observation list \<Rightarrow> aco_state \<Rightarrow> bool" where
  "aco_inv observations st \<longleftrightarrow>
     rows_nonneg (length observations) (trails st)
     \<and> good_tour observations (global_best_schedule st)"

lemma aco_iteration_total:
  assumes "succ_ok (length observations) successors"
    and "rows_nonneg (length observations) heuristic"
    and "0 \<le> alpha" "0 \<le> beta" "observations \<noteq> []"
    and "aco_inv observations st"
  shows "\<exists>st'. aco_iteration observations successors heuristic num_ants alpha beta evap st
           = Inr st' \<and> aco_inv observations st'"
proof -
  define s0 where "s0 = \<lparr>local_best_score = 0, local_best = None,
     best_score = global_best_score st, best_schedule = global_best_schedule st,
     gen = generator st\<rparr>"
  have pher: "rows_nonneg (length observations) (trails st)"
    using assms(6) by (simp add: aco_inv_def)
  have "ants_inv observations s0"
    using assms(6) by (simp add: ants_inv_def s0_def aco_inv_def)
  then obtain s where
    ants: "ants_loop observations successors (trails st) heuristic alpha beta num_ants s0 = Inr s"
    and inv: "ants_inv observations s"
    using ants_loop_total [OF assms(1) pher assms(2-5)] by blast
  have len: "length (trails st) = length observations"
    using pher by (simp add: rows_nonneg_def)
  have lb: "case local_best s of None \<Rightarrow> True
            | Some t \<Rightarrow> list_all (\<lambda>j. j < length observations) t"
    using inv by (auto simp: ants_inv_def good_tour_def split: option.splits)
  have "\<exists>pher'. deposit_pheromone successors (local_best_score s) (local_best s)
           (evaporate evap (trails st)) = Inr pher' \<and> rows_nonneg (length observations) pher'"
    using assms(1) inv
    by (intro deposit_pheromone_total evaporate_nonneg len lb)
      (simp_all add: succ_ok_def ants_inv_def)
  then obtain pher2 where
    dep: "deposit_pheromone successors (local_best_score s) (local_best s)
           (evaporate evap (trails st)) = Inr pher2"
    and p2: "rows_nonneg (length observations) pher2"
    by blast
  have "aco_iteration observations successors heuristic num_ants alpha beta evap st
          = Inr \<lparr>trails = pher2, global_best_score = best_score s,
                 global_best_schedule = best_schedule s, generator = gen s\<rparr>"
    using ants dep by (simp add: aco_iteration_def s0_def Let_def)
  moreover have "aco_inv observations \<lparr>trails = pher2, global_best_score = best_score s,
                 global_best_schedule = best_schedule s, generator = gen s\<rparr>"
    using p2 inv by (simp add: aco_inv_def ants_inv_def)
  ultimately show ?thesis
    by blast
qed

lemma aco_loop_total:
  assumes "succ_ok (length observations) successors"
    and "rows_nonneg (length observations) heuristic"
    and "0 \<le> alpha" "0 \<le> beta" "observations \<noteq> []"
  shows "aco_inv observations st
         \<Longrightarrow> \<exists>st'. aco_loop observations successors heuristic num_ants alpha beta evap k st
                  = Inr st' \<and> aco_inv observations st'"
proof (induction k arbitrary: st)
  case 0
  then show ?case by simp
next
  case (Suc k)
  obtain st1 where
    "aco_iteration observations successors heuristic num_ants alpha beta evap st = Inr st1"
    "aco_inv observations st1"
    using aco_iteration_total [OF assms Suc.prems] by blast
  then show ?case
    using Suc.IH [of st1] by simp
qed

lemma init_pheromone_nonneg:
  "rows_nonneg (length successors) (init_pheromone successors)"
proof -
  have "list_all (\<lambda>(j, v). 0 \<le> v) (fold (\<lambda>j r. dict_set r j init_pher) s r0)"
    if "list_all (\<lambda>(j, v). 0 \<le> v) r0" for s r0
    using that
  proof (induction s arbitrary: r0)
    case Nil
    then show ?case by simp
  next
    case (Cons j s)
    show ?case
      using Cons.IH [OF dict_set_nonneg [OF Cons.prems, of init_pher j]]
      by (simp add: init_pher_def)
  qed
  then have key: "list_all (\<lambda>(j, v). 0 \<le> v) (fold (\<lambda>j r. dict_set r j init_pher) s [])" for s
    by simp
  have "list_all (list_all (\<lambda>(j, v). 0 \<le> v))
          (map (\<lambda>i. fold (\<lambda>j r. dict_set r j init_pher) (successors ! i) []) xs)" for xs
    by (induction xs) (simp_all add: key)
  then show ?thesis
    by (simp add: rows_nonneg_def init_pheromone_def)
qed

text \<open>
  With a slew matrix that covers the tasks, non-negative weights and non-negative exponents,
  the solver returns a schedule on every task list, whatever its intervals.
\<close>

lemma ant_colony_schedule_total:
  assumes "slew_covers (length observations) slew_matrix" "weights_nonneg observations"
    and "0 \<le> alpha" "0 \<le> beta"
  shows "\<exists>sched. ant_colony_schedule observations slew_matrix num_ants alpha beta evap
           iterations top_k g = Inr sched"
proof (cases "observations = []")
  case True
  then show ?thesis
    by (simp add: ant_colony_schedule_def)
next
  case False
  obtain successors where
    succ: "build_successors observations slew_matrix top_k = Inr successors"
    using build_successors_total [OF assms(1)] by blast
  have sok: "succ_ok (length observations) successors"
    by (rule build_successors_succ_ok [OF succ])
  obtain heuristic where
    heur: "build_heuristic observations slew_matrix successors = Inr heuristic"
    using build_heuristic_total [OF assms(1) sok] by blast
  have hok: "rows_nonneg (length observations) heuristic"
    by (rule build_heuristic_nonneg [OF heur assms(1) sok assms(2)])
  have "rows_nonneg (length observations) (init_pheromone successors)"
    using init_pheromone_nonneg [of successors] sok by (simp add: succ_ok_def)
  then have "aco_inv observations (aco_init successors g)"
    by (simp add: aco_inv_def aco_init_def good_tour_Nil)
  then obtain st where
    loop: "aco_loop observations successors heuristic num_ants alpha beta evap iterations
             (aco_init successors g) = Inr st"
    and inv: "aco_inv observations st"
    using aco_loop_total [OF sok hok assms(3,4) False] by blast
  have "list_all (\<lambda>j. j < length observations) (global_best_schedule st)"
    using inv by (simp add: aco_inv_def good_tour_def)
  then have "map_err (list_get observations) (global_best_schedule st)
               = Inr (map (\<lambda>i. observations ! i) (global_best_schedule st))"
    by (rule map_err_list_get_total)
  then show ?thesis
    using False succ heur loop by (simp add: ant_colony_schedule_def Let_def)
qed

section \<open>All weights zero\<close>

definition weights_zero :: "observation list \<Rightarrow> bool" where
  "weights_zero observations = list_all (\<lambda>ob. weight ob = 0) observations"

lemma tour_score_zero:
  assumes "weights_zero observations" "tour_score observations tour = Inr score"
  shows "score = 0"
proof -
  from assms(2) obtain obs where
    obs: "map_err (list_get observations) tour = Inr obs"
    and score: "score = sum_list (map weight obs)"
    by (auto simp: tour_score_def bind_err_Inr_iff)
  have "set obs \<subseteq> set observations"
    using map_err_list_get [OF obs] by auto
  then have "\<forall>ob\<in>set obs. weight ob = 0"
    using assms(1) by (auto simp: weights_zero_def list_all_iff)
  then have "sum_list (map weight obs) = 0"
    by (induction obs) simp_all
  then show ?thesis
    by (simp add: score)
qed

lemma ants_loop_zero:
  assumes "weights_zero observations"
  shows "ants_loop observations successors pher heuristic alpha beta k s = Inr s'
         \<Longrightarrow> 0 \<le> best_score s
         \<Longrightarrow> best_schedule s' = best_schedule s \<and> best_score s' = best_score s"
proof (induction k arbitrary: s)
  case 0
  then show ?case by simp
next
  case (Suc k)
  from Suc.prems(1) obtain tour g' score where
    ts: "tour_score observations tour = Inr score"
    and rest: "ants_loop observations successors pher heuristic alpha beta k
             ((let s1 = (if score > local_best_score s
                         then s\<lparr>local_best_score := score, local_best := Some tour\<rparr> else s);
                   s2 = (if score > best_score s1
                         then s1\<lparr>best_score := score, best_schedule := tour\<rparr> else s1)
               in s2\<lparr>gen := g'\<rparr>)) = Inr s'"
    by (auto simp: bind_err_Inr_iff Let_def)
  have z: "score = 0"
    by (rule tour_score_zero [OF assms ts])
  define s1 where "s1 = (if 0 > local_best_score s
                         then s\<lparr>local_best_score := 0, local_best := Some tour\<rparr> else s)"
  have b: "best_score s1 = best_score s" "best_schedule s1 = best_schedule s"
    by (simp_all add: s1_def)
  have "ants_loop observations successors pher heuristic alpha beta k (s1\<lparr>gen := g'\<rparr>) = Inr s'"
    using rest Suc.prems(2) b unfolding z s1_def [symmetric] by (simp add: Let_def)
  then show ?case
    using Suc.IH [of "s1\<lparr>gen := g'\<rparr>"] Suc.prems(2) b by simp
qed

lemma aco_iteration_zero:
  assumes "weights_zero observations"
    and "aco_iteration observations successors heuristic num_ants alpha beta evap st = Inr st'"
    and "0 \<le> global_best_score st"
  shows "global_best_schedule st' = global_best_schedule st
         \<and> global_best_score st' = global_best_score st"
proof -
  from assms(2) obtain s :: ants_state and pher2 where
    ants: "ants_loop observations successors (trails st) heuristic alpha beta num_ants
       \<lparr>local_best_score = 0, local_best = None, best_score = global_best_score st,
        best_schedule = global_best_schedule st, gen = generator st\<rparr> = Inr s"
    and st': "st' = \<lparr>trails = pher2, global_best_score = best_score s,
           global_best_schedule = best_schedule s, generator = gen s\<rparr>"
    by (rule aco_iteration_InrE)
  show ?thesis
    using ants_loop_zero [OF assms(1) ants] assms(3) by (simp add: st')
qed

lemma aco_loop_zero:
  assumes "weights_zero observations"
  shows "aco_loop observations successors heuristic num_ants alpha beta evap k st = Inr st'
         \<Longrightarrow> 0 \<le> global_best_score st
         \<Longrightarrow> global_best_schedule st' = global_best_schedule st
             \<and> global_best_score st' = global_best_score st"
proof (induction k arbitrary: st)
  case 0
  then show ?case by simp
next
  case (Suc k)
  from Suc.prems(1) obtain st1 where
    it: "aco_iteration observations successors heuristic num_ants alpha beta evap st = Inr st1"
    and rest: "aco_loop observations successors heuristic num_ants alpha beta evap k st1 = Inr st'"
    by (auto simp: bind_err_Inr_iff)
  have one: "global_best_schedule st1 = global_best_schedule st
             \<and> global_best_score st1 = global_best_score st"
    by (rule aco_iteration_zero [OF assms it Suc.prems(2)])
  then show ?case
    using Suc.IH [OF rest] Suc.prems(2) by simp
qed

lemma ant_colony_schedule_zero:
  assumes "weights_zero observations"
    and "ant_colony_schedule observations slew_matrix num_ants alpha beta evap iterations
           top_k g = Inr sched"
  shows "sched = []"
proof (cases "length observations = 0")
  case True
  with assms(2) show ?thesis
    by (simp add: ant_colony_schedule_def)
next
  case False
  with assms(2) obtain successors heuristic st where
    loop: "aco_loop observations successors heuristic num_ants alpha beta evap iterations
             (aco_init successors g) = Inr st"
    and res: "(if global_best_schedule st = [] then Inr []
               else bind_err (map_err (list_get observations) (global_best_schedule st))
                      (\<lambda>best_schedule_obs. Inr (sort_key start best_schedule_obs))) = Inr sched"
    by (auto simp: ant_colony_schedule_def Let_def bind_err_Inr_iff)
  have "global_best_schedule st = []"
    using aco_loop_zero [OF assms(1) loop] by (simp add: aco_init_def)
  with res show ?thesis
    by simp
qed

lemma tour_loop_nonempty:
  "tour_loop observations successors pher heuristic alpha beta selected used g = Inr (tour, g')
   \<Longrightarrow> tour \<noteq> []"
proof (induction observations successors pher heuristic alpha beta selected used g
    rule: tour_loop.induct)
  case (1 observations successors pher heuristic alpha beta selected used g)
  from "1.prems"(1) have ne: "selected \<noteq> []"
    by (subst (asm) tour_loop.simps) (auto split: if_splits)
  from "1.prems"(1) ne obtain succ cand where
    succ: "list_get successors (last selected) = Inr succ"
    and cand: "tour_candidates observations pher heuristic alpha beta used (last selected) succ
                 = Inr cand"
    and res: "(if cand = [] then Inr (selected, g)
               else (case choose_next cand g of (chosen, g1) \<Rightarrow>
                 tour_loop observations successors pher heuristic alpha beta
                   (selected @ [chosen]) (used[chosen := True]) g1)) = Inr (tour, g')"
    by (subst (asm) tour_loop.simps) (auto simp: bind_err_Inr_iff Let_def)
  show ?case
  proof (cases "cand = []")
    case True
    with res ne show ?thesis by simp
  next
    case False
    obtain chosen g1 where ch: "choose_next cand g = (chosen, g1)"
      by (cases "choose_next cand g")
    with res False have rec: "tour_loop observations successors pher heuristic alpha beta
                   (selected @ [chosen]) (used[chosen := True]) g1 = Inr (tour, g')"
      by simp
    show ?thesis
      by (rule "1.IH" [OF ne refl succ cand False ch [symmetric] rec])
  qed
qed

lemma build_ant_tour_nonempty:
  "build_ant_tour observations successors pher heuristic alpha beta g = Inr (tour, g')
   \<Longrightarrow> tour \<noteq> []"
  by (auto simp: build_ant_tour_def Let_def bind_err_Inr_iff dest: tour_loop_nonempty)

lemma weights_zero_nonneg: "weights_zero observations \<Longrightarrow> weights_nonneg observations"
  by (simp add: weights_zero_def weights_nonneg_def list_all_iff)

section \<open>The candidates an ant keeps\<close>

text \<open>
  The unused, start-feasible entries of \<open>successors[last]\<close>: those that pass the tests of
  lines 85 and 88.
\<close>

definition feasible_unused :: "observation list \<Rightarrow> bool list \<Rightarrow> nat \<Rightarrow> nat list \<Rightarrow> nat list" where
  "feasible_unused observations used last_idx succ =
     filter (\<lambda>j. \<not> used ! j \<and> start (observations ! j) \<ge> endt (observations ! last_idx)) succ"

text \<open>The selection weight \<open>tau * eta\<close> of the edge from \<open>last\<close> to \<open>j\<close> (lines 90, 91, 94).\<close>

definition selection_weight ::
  "row list \<Rightarrow> row list \<Rightarrow> real \<Rightarrow> real \<Rightarrow> nat \<Rightarrow> nat \<Rightarrow> error + real" where
  "selection_weight pher heuristic alpha beta last_idx j =
     bind_err (list_get pher last_idx) (\<lambda>prow.
     bind_err (py_pow (dict_get prow j 0) alpha) (\<lambda>tau.
     bind_err (list_get heuristic last_idx) (\<lambda>hrow.
     bind_err (py_pow (dict_get hrow j 0) beta) (\<lambda>eta. Inr (tau * eta)))))"

lemma in_feasible_unused:
  "j \<in> set (feasible_unused observations used last_idx js) \<longleftrightarrow>
     j \<in> set js \<and> \<not> used ! j \<and> endt (observations ! last_idx) \<le> start (observations ! j)"
  by (simp add: feasible_unused_def)

lemma tour_candidates_kept:
  "tour_candidates observations pher heuristic alpha beta used last_idx js = Inr cand
   \<Longrightarrow> (s, j) \<in> set cand
   \<Longrightarrow> j \<in> set (feasible_unused observations used last_idx js)
       \<and> (\<exists>prow hrow tau eta.
             list_get pher last_idx = Inr prow \<and> py_pow (dict_get prow j 0) alpha = Inr tau
             \<and> list_get heuristic last_idx = Inr hrow \<and> py_pow (dict_get hrow j 0) beta = Inr eta
             \<and> s = tau * eta \<and> (0 < tau \<or> 0 < eta))"
proof (induction js arbitrary: cand)
  case Nil
  then show ?case by simp
next
  case (Cons k js)
  from Cons.prems(1) obtain u where u: "list_get used k = Inr u"
    by (auto simp: bind_err_Inr_iff)
  show ?case
  proof (cases u)
    case True
    then have "tour_candidates observations pher heuristic alpha beta used last_idx js = Inr cand"
      using Cons.prems(1) u by simp
    from Cons.IH [OF this Cons.prems(2)] show ?thesis
      by (auto simp: in_feasible_unused)
  next
    case False
    from Cons.prems(1) u False obtain oj ol where
      oj: "list_get observations k = Inr oj" and ol: "list_get observations last_idx = Inr ol"
      by (auto simp: bind_err_Inr_iff)
    show ?thesis
    proof (cases "start oj \<ge> endt ol")
      case nf: False
      then have "tour_candidates observations pher heuristic alpha beta used last_idx js = Inr cand"
        using Cons.prems(1) u False oj ol by simp
      from Cons.IH [OF this Cons.prems(2)] show ?thesis
        by (auto simp: in_feasible_unused)
    next
      case fe: True
      from Cons.prems(1) u False oj ol fe obtain prow tau hrow eta where
        pe: "list_get pher last_idx = Inr prow" "py_pow (dict_get prow k 0) alpha = Inr tau"
          "list_get heuristic last_idx = Inr hrow" "py_pow (dict_get hrow k 0) beta = Inr eta"
        by (auto simp: bind_err_Inr_iff)
      show ?thesis
      proof (cases "tau \<le> 0 \<and> eta \<le> 0")
        case True
        then have "tour_candidates observations pher heuristic alpha beta used last_idx js
                     = Inr cand"
          using Cons.prems(1) u False oj ol fe pe by simp
        from Cons.IH [OF this Cons.prems(2)] show ?thesis
          by (auto simp: in_feasible_unused)
      next
        case keep: False
        with Cons.prems(1) u False oj ol fe pe obtain cand' where
          rest: "tour_candidates observations pher heuristic alpha beta used last_idx js
                   = Inr cand'"
          and cand: "cand = (tau * eta, k) # cand'"
          by (auto simp: bind_err_Inr_iff)
        show ?thesis
        proof (cases "(s, j) = (tau * eta, k)")
          case True
          have "k \<in> set (feasible_unused observations used last_idx (k # js))"
            using u False oj ol fe by (simp add: in_feasible_unused list_get_Inr_iff)
          with True pe keep show ?thesis
            by (auto simp: not_le)
        next
          case False
          with Cons.prems(2) cand have "(s, j) \<in> set cand'"
            by auto
          from Cons.IH [OF rest this] show ?thesis
            by (auto simp: in_feasible_unused)
        qed
      qed
    qed
  qed
qed


lemma tour_candidates_dropped:
  "tour_candidates observations pher heuristic alpha beta used last_idx js = Inr cand
   \<Longrightarrow> j \<in> set (feasible_unused observations used last_idx js)
   \<Longrightarrow> j \<notin> snd ` set cand
   \<Longrightarrow> \<exists>prow hrow tau eta.
         list_get pher last_idx = Inr prow \<and> py_pow (dict_get prow j 0) alpha = Inr tau
         \<and> list_get heuristic last_idx = Inr hrow \<and> py_pow (dict_get hrow j 0) beta = Inr eta
         \<and> tau \<le> 0 \<and> eta \<le> 0"
proof (induction js arbitrary: cand)
  case Nil
  then show ?case by (simp add: feasible_unused_def)
next
  case (Cons k js)
  from Cons.prems(1) obtain u where u: "list_get used k = Inr u"
    by (auto simp: bind_err_Inr_iff)
  then have uk: "u = used ! k"
    by (simp add: list_get_Inr_iff)
  show ?case
  proof (cases u)
    case True
    then have rest: "tour_candidates observations pher heuristic alpha beta used last_idx js
                       = Inr cand"
      using Cons.prems(1) u by simp
    have "j \<in> set (feasible_unused observations used last_idx js)"
      using Cons.prems(2) True uk by (auto simp: in_feasible_unused)
    from Cons.IH [OF rest this Cons.prems(3)] show ?thesis .
  next
    case False
    from Cons.prems(1) u False obtain oj ol where
      oj: "list_get observations k = Inr oj" and ol: "list_get observations last_idx = Inr ol"
      by (auto simp: bind_err_Inr_iff)
    then have ojk: "oj = observations ! k" and oll: "ol = observations ! last_idx"
      by (simp_all add: list_get_Inr_iff)
    show ?thesis
    proof (cases "start oj \<ge> endt ol")
      case nf: False
      then have rest: "tour_candidates observations pher heuristic alpha beta used last_idx js
                         = Inr cand"
        using Cons.prems(1) u False oj ol by simp
      have "j \<in> set (feasible_unused observations used last_idx js)"
        using Cons.prems(2) nf ojk oll by (auto simp: in_feasible_unused)
      from Cons.IH [OF rest this Cons.prems(3)] show ?thesis .
    next
      case fe: True
      from Cons.prems(1) u False oj ol fe obtain prow tau hrow eta where
        pe: "list_get pher last_idx = Inr prow" "py_pow (dict_get prow k 0) alpha = Inr tau"
          "list_get heuristic last_idx = Inr hrow" "py_pow (dict_get hrow k 0) beta = Inr eta"
        by (auto simp: bind_err_Inr_iff)
      show ?thesis
      proof (cases "tau \<le> 0 \<and> eta \<le> 0")
        case True
        then have rest: "tour_candidates observations pher heuristic alpha beta used last_idx js
                     = Inr cand"
          using Cons.prems(1) u False oj ol fe pe by simp
        show ?thesis
        proof (cases "j = k")
          case True
          with pe \<open>tau \<le> 0 \<and> eta \<le> 0\<close> show ?thesis by blast
        next
          case False
          then have "j \<in> set (feasible_unused observations used last_idx js)"
            using Cons.prems(2) by (auto simp: in_feasible_unused)
          from Cons.IH [OF rest this Cons.prems(3)] show ?thesis .
        qed
      next
        case keep: False
        with Cons.prems(1) u False oj ol fe pe obtain cand' where
          rest: "tour_candidates observations pher heuristic alpha beta used last_idx js
                   = Inr cand'"
          and cand: "cand = (tau * eta, k) # cand'"
          by (auto simp: bind_err_Inr_iff)
        have jk: "j \<noteq> k" and notin: "j \<notin> snd ` set cand'"
          using Cons.prems(3) cand by auto
        then have "j \<in> set (feasible_unused observations used last_idx js)"
          using Cons.prems(2) by (auto simp: in_feasible_unused)
        from Cons.IH [OF rest this notin] show ?thesis .
      qed
    qed
  qed
qed

lemma sorted_desc_hd:
  fixes cand :: "('a::linorder) list"
  assumes "cand \<noteq> []"
  shows "hd (rev (sort cand)) \<in> set cand" and "\<And>x. x \<in> set cand \<Longrightarrow> x \<le> hd (rev (sort cand))"
proof -
  have ne: "sort cand \<noteq> []"
    using assms by (metis length_sort length_0_conv)
  then have hd: "hd (rev (sort cand)) = last (sort cand)"
    by (simp add: hd_rev)
  have "last (sort cand) \<in> set (sort cand)"
    using ne by (rule last_in_set)
  then show "hd (rev (sort cand)) \<in> set cand"
    by (simp add: hd)
  fix x assume "x \<in> set cand"
  then have "x \<in> set (sort cand)" by simp
  then obtain i where i: "i < length (sort cand)" "sort cand ! i = x"
    unfolding in_set_conv_nth by blast
  have "sort cand ! i \<le> sort cand ! (length (sort cand) - 1)"
    using i(1) by (intro sorted_nth_mono) simp_all
  then have "x \<le> last (sort cand)"
    using i(2) ne by (simp add: last_conv_nth)
  then show "x \<le> hd (rev (sort cand))"
    by (simp add: hd)
qed

lemma tour_loop_unfold:
  assumes "selected \<noteq> []" "list_get successors (last selected) = Inr succ"
    and "tour_candidates observations pher heuristic alpha beta used (last selected) succ
           = Inr cand"
  shows "tour_loop observations successors pher heuristic alpha beta selected used g =
           (if cand = [] then Inr (selected, g)
            else (case choose_next cand g of (chosen, g') \<Rightarrow>
                    tour_loop observations successors pher heuristic alpha beta
                      (selected @ [chosen]) (used[chosen := True]) g'))"
  using assms by (subst tour_loop.simps) (simp add: Let_def)

section \<open>The exact solver on valid intervals\<close>

subsection \<open>The rightmost insertion point\<close>

lemma bisect_right_loop_spec:
  assumes "sorted a" "lo \<le> hi" "hi \<le> length a"
    and "\<forall>k<lo. a ! k \<le> x" "\<forall>k. hi \<le> k \<and> k < length a \<longrightarrow> x < a ! k"
  shows "bisect_right_loop a x lo hi \<le> length a
         \<and> (\<forall>k<bisect_right_loop a x lo hi. a ! k \<le> x)
         \<and> (\<forall>k. bisect_right_loop a x lo hi \<le> k \<and> k < length a \<longrightarrow> x < a ! k)"
  using assms
proof (induction a x lo hi rule: bisect_right_loop.induct)
  case (1 a x lo hi)
  show ?case
  proof (cases "lo < hi")
    case False
    with "1.prems" have "lo = hi" by simp
    have "bisect_right_loop a x lo hi = lo"
      using False by (subst bisect_right_loop.simps) simp
    with "1.prems" \<open>lo = hi\<close> show ?thesis
      by simp
  next
    case True
    define mid where "mid = (lo + hi) div 2"
    have mid: "lo \<le> mid" "mid < hi" "mid < length a"
      using True "1.prems" by (auto simp: mid_def)
    show ?thesis
    proof (cases "x < a ! mid")
      case lt: True
      have above: "\<forall>k. mid \<le> k \<and> k < length a \<longrightarrow> x < a ! k"
      proof (intro allI impI)
        fix k assume "mid \<le> k \<and> k < length a"
        then have "a ! mid \<le> a ! k"
          using \<open>sorted a\<close> by (auto simp: sorted_iff_nth_mono)
        with lt show "x < a ! k" by simp
      qed
      have eq: "bisect_right_loop a x lo hi = bisect_right_loop a x lo mid"
        using True lt by (subst bisect_right_loop.simps) (simp add: mid_def Let_def)
      have "bisect_right_loop a x lo mid \<le> length a
         \<and> (\<forall>k<bisect_right_loop a x lo mid. a ! k \<le> x)
         \<and> (\<forall>k. bisect_right_loop a x lo mid \<le> k \<and> k < length a \<longrightarrow> x < a ! k)"
        using "1.IH"(1) [OF True mid_def lt] "1.prems" mid above by simp
      then show ?thesis unfolding eq .
    next
      case ge: False
      have below: "\<forall>k<mid + 1. a ! k \<le> x"
      proof (intro allI impI)
        fix k assume "k < mid + 1"
        then have "a ! k \<le> a ! mid"
          using \<open>sorted a\<close> mid by (auto simp: sorted_iff_nth_mono)
        with ge show "a ! k \<le> x" by simp
      qed
      have eq: "bisect_right_loop a x lo hi = bisect_right_loop a x (mid + 1) hi"
        using True ge by (subst bisect_right_loop.simps) (simp add: mid_def Let_def)
      have "bisect_right_loop a x (mid + 1) hi \<le> length a
         \<and> (\<forall>k<bisect_right_loop a x (mid + 1) hi. a ! k \<le> x)
         \<and> (\<forall>k. bisect_right_loop a x (mid + 1) hi \<le> k \<and> k < length a \<longrightarrow> x < a ! k)"
        using "1.IH"(2) [OF True mid_def ge] "1.prems" mid below by simp
      then show ?thesis unfolding eq .
    qed
  qed
qed

lemma bisect_right_spec:
  assumes "sorted a"
  shows "bisect_right a x \<le> length a"
    and "\<And>k. bisect_right a x \<le> k \<Longrightarrow> k < length a \<Longrightarrow> x < a ! k"
    and "\<And>k. k < bisect_right a x \<Longrightarrow> a ! k \<le> x"
  using bisect_right_loop_spec [OF assms, of 0 "length a" x] by (auto simp: bisect_right_def)

subsection \<open>The end-sorted order\<close>

lemma dp_indices_length [simp]: "length (dp_indices obs_list) = length obs_list"
  by (simp add: dp_indices_def)

lemma dp_indices_set: "set (dp_indices obs_list) = {0..<length obs_list}"
  by (simp add: dp_indices_def)


lemma dp_indices_nth_less:
  "k < length obs_list \<Longrightarrow> dp_indices obs_list ! k < length obs_list"
  using dp_indices_set [of obs_list] nth_mem [of k "dp_indices obs_list"] by simp

text \<open>The task at position \<open>k\<close> of the end-sorted order.\<close>

definition sorted_task :: "observation list \<Rightarrow> nat \<Rightarrow> observation" where
  "sorted_task obs_list k = obs_list ! (dp_indices obs_list ! k)"

lemma dp_ends_s_nth:
  "k < length obs_list \<Longrightarrow> dp_ends_s obs_list ! k = endt (sorted_task obs_list k)"
  by (simp add: dp_ends_s_def sorted_task_def dp_indices_nth_less)

lemma dp_starts_s_nth:
  "k < length obs_list \<Longrightarrow> dp_starts_s obs_list ! k = start (sorted_task obs_list k)"
  by (simp add: dp_starts_s_def sorted_task_def dp_indices_nth_less)

lemma dp_weights_s_nth:
  "k < length obs_list
   \<Longrightarrow> dp_weights_s obs_list ! k = transformed_weight (sorted_task obs_list k)"
  by (simp add: dp_weights_s_def sorted_task_def dp_indices_nth_less)

lemma dp_ends_s_length [simp]: "length (dp_ends_s obs_list) = length obs_list"
  by (simp add: dp_ends_s_def)

lemma dp_ends_s_sorted: "sorted (dp_ends_s obs_list)"
proof -
  have "map (\<lambda>i. map endt obs_list ! i) (dp_indices obs_list)
          = map (\<lambda>i. map endt obs_list ! i)
              (sort_key (\<lambda>i. map endt obs_list ! i) [0..<length obs_list])"
    by (simp add: dp_indices_def)
  then show ?thesis
    by (simp add: dp_ends_s_def)
qed

lemma sorted_task_valid:
  "valid_intervals obs_list \<Longrightarrow> k < length obs_list
   \<Longrightarrow> start (sorted_task obs_list k) < endt (sorted_task obs_list k)"
  using dp_indices_nth_less [of k obs_list]
  by (simp add: valid_intervals_def list_all_length sorted_task_def)


text \<open>\<open>pred_count k\<close> is \<open>p[k] + 1\<close>: the number of positions whose end is at most the
  start of position \<open>k\<close>.\<close>

definition pred_count :: "observation list \<Rightarrow> nat \<Rightarrow> nat" where
  "pred_count obs_list k = bisect_right (dp_ends_s obs_list) (dp_starts_s obs_list ! k)"

lemma dp_p_nth:
  "k < length obs_list \<Longrightarrow> dp_p obs_list ! k = int (pred_count obs_list k) - 1"
  by (simp add: dp_p_def pred_count_def)

lemma dp_p_length [simp]: "length (dp_p obs_list) = length obs_list"
  by (simp add: dp_p_def)

lemma pred_count_le: "pred_count obs_list k \<le> length obs_list"
  using bisect_right_spec(1) [OF dp_ends_s_sorted, of obs_list] by (simp add: pred_count_def)

lemma pred_count_below:
  assumes "k < length obs_list" "q < pred_count obs_list k"
  shows "endt (sorted_task obs_list q) \<le> start (sorted_task obs_list k)"
proof -
  have "q < length obs_list"
    using assms(2) pred_count_le [of obs_list k] by simp
  then show ?thesis
    using bisect_right_spec(3) [OF dp_ends_s_sorted, of q obs_list "dp_starts_s obs_list ! k"]
      assms
    by (simp add: pred_count_def dp_ends_s_nth dp_starts_s_nth)
qed


lemma pred_count_le_self:
  assumes "valid_intervals obs_list" "k < length obs_list"
  shows "pred_count obs_list k \<le> k"
proof (rule ccontr)
  assume "\<not> pred_count obs_list k \<le> k"
  then have "k < pred_count obs_list k" by simp
  then have "endt (sorted_task obs_list k) \<le> start (sorted_task obs_list k)"
    by (rule pred_count_below [OF assms(2)])
  with sorted_task_valid [OF assms] show False by simp
qed

subsection \<open>Rounding to a double\<close>

lemma round_half_even_nonneg: "0 \<le> x \<Longrightarrow> 0 \<le> round_half_even x"
  by (auto simp: round_half_even_def Let_def)

lemma double_round_nonneg: "0 \<le> x \<Longrightarrow> 0 \<le> double_round x"
  by (simp add: double_round_def Let_def round_half_even_nonneg)


subsection \<open>The table \<open>M\<close>\<close>

text \<open>The value of \<open>incl\<close> for position \<open>k\<close> of the end-sorted order, as lines 54 to 57
  and 68 to 71 compute it from a table.\<close>

definition dp_incl_at :: "observation list \<Rightarrow> real list \<Rightarrow> nat \<Rightarrow> real" where
  "dp_incl_at obs_list M k =
     (if pred_count obs_list k = 0 then transformed_weight (sorted_task obs_list k)
      else py_float_add (transformed_weight (sorted_task obs_list k))
             (M ! pred_count obs_list k))"

lemma dp_incl_eq:
  assumes "k < length obs_list"
  shows "dp_incl (dp_weights_s obs_list) (dp_p obs_list) M (Suc k) = dp_incl_at obs_list M k"
proof (cases "pred_count obs_list k = 0")
  case True
  then show ?thesis
    by (simp add: dp_incl_def dp_incl_at_def Let_def dp_p_nth [OF assms]
        dp_weights_s_nth [OF assms])
next
  case False
  then have "nat (int (pred_count obs_list k) - 1 + 1) = pred_count obs_list k"
    by simp
  with False show ?thesis
    by (simp add: dp_incl_def dp_incl_at_def Let_def dp_p_nth [OF assms]
        dp_weights_s_nth [OF assms])
qed

lemma dp_incl_at_cong:
  "M' ! pred_count obs_list k = M ! pred_count obs_list k
   \<Longrightarrow> dp_incl_at obs_list M' k = dp_incl_at obs_list M k"
  by (simp add: dp_incl_at_def)

text \<open>The table as the loop of lines 53 to 60 has filled it up to index \<open>m\<close>.\<close>

definition dp_table_ok :: "observation list \<Rightarrow> nat \<Rightarrow> real list \<Rightarrow> bool" where
  "dp_table_ok obs_list m M \<longleftrightarrow>
     length M = length obs_list + 1 \<and> M ! 0 = 0
     \<and> (\<forall>k<m. M ! Suc k = max (M ! k) (dp_incl_at obs_list M k))"

lemma dp_step_ok:
  assumes "valid_intervals obs_list" "m < length obs_list" "dp_table_ok obs_list m M"
  shows "dp_table_ok obs_list (Suc m)
           (dp_step (dp_weights_s obs_list) (dp_p obs_list) (Suc m) M)"
proof -
  define M' where "M' = dp_step (dp_weights_s obs_list) (dp_p obs_list) (Suc m) M"
  define v where "v = max (M ! m) (dp_incl_at obs_list M m)"
  have len: "length M = length obs_list + 1" and zero: "M ! 0 = 0"
    using assms(3) by (simp_all add: dp_table_ok_def)
  have incl: "dp_incl (dp_weights_s obs_list) (dp_p obs_list) M (Suc m)
           = dp_incl_at obs_list M m"
    by (rule dp_incl_eq [OF assms(2)])
  have M': "M' = M[Suc m := v]"
    by (simp add: M'_def dp_step_def Let_def incl v_def max_def)
  have same: "M' ! i = M ! i" if "i \<le> m" for i
    using that by (simp add: M')
  have new: "M' ! Suc m = v"
    using assms(2) len by (simp add: M')
  have "M' ! Suc k = max (M' ! k) (dp_incl_at obs_list M' k)"
    if k: "k < Suc m" for k
  proof (cases "k = m")
    case True
    have "pred_count obs_list m \<le> m"
      by (rule pred_count_le_self [OF assms(1,2)])
    then have "dp_incl_at obs_list M' m = dp_incl_at obs_list M m"
      by (intro dp_incl_at_cong same)
    then show ?thesis
      using True new same [of m] by (simp add: v_def)
  next
    case False
    with k have km: "k < m" by simp
    have kn: "k < length obs_list"
      using km assms(2) by simp
    have "pred_count obs_list k \<le> k"
      by (rule pred_count_le_self [OF assms(1) kn])
    then have c: "pred_count obs_list k \<le> m"
      using km by simp
    have "M ! Suc k = max (M ! k) (dp_incl_at obs_list M k)"
      using assms(3) km by (simp add: dp_table_ok_def)
    moreover have "dp_incl_at obs_list M' k = dp_incl_at obs_list M k"
      by (intro dp_incl_at_cong same c)
    ultimately show ?thesis
      using same [of "Suc k"] same [of k] km by simp
  qed
  moreover have "length M' = length obs_list + 1"
    by (simp add: M' len)
  moreover have "M' ! 0 = 0"
    using same [of 0] zero by simp
  ultimately show ?thesis
    unfolding M'_def [symmetric] dp_table_ok_def by blast
qed

lemma dp_fold_ok:
  assumes "valid_intervals obs_list"
  shows "m \<le> length obs_list
         \<Longrightarrow> dp_table_ok obs_list m
               (fold (dp_step (dp_weights_s obs_list) (dp_p obs_list)) [1..<m + 1]
                  (replicate (length obs_list + 1) 0))"
proof (induction m)
  case 0
  then show ?case
    by (simp add: dp_table_ok_def)
next
  case (Suc m)
  have "[1..<Suc m + 1] = [1..<m + 1] @ [Suc m]"
    by simp
  then show ?case
    using dp_step_ok [OF assms, of m] Suc by (simp del: upt_Suc)
qed

lemma dp_M_ok:
  "valid_intervals obs_list \<Longrightarrow> dp_table_ok obs_list (length obs_list) (dp_M obs_list)"
  using dp_fold_ok [of obs_list "length obs_list"] by (simp add: dp_M_def Let_def)

subsection \<open>Sums that are not rounded\<close>



text \<open>The same in the end-sorted order, for any table.\<close>

definition dp_exact :: "observation list \<Rightarrow> real list \<Rightarrow> bool" where
  "dp_exact obs_list M \<longleftrightarrow>
     (\<forall>k<length obs_list.
        dp_incl_at obs_list M k
          = transformed_weight (sorted_task obs_list k) + M ! pred_count obs_list k)"


text \<open>With exact sums the table obeys the recurrence of weighted interval scheduling.\<close>

lemma dp_table_recurrence:
  assumes "dp_table_ok obs_list (length obs_list) M" "dp_exact obs_list M"
    and "k < length obs_list"
  shows "M ! Suc k = max (M ! k) (transformed_weight (sorted_task obs_list k)
                                   + M ! pred_count obs_list k)"
  using assms by (simp add: dp_table_ok_def dp_exact_def)

subsection \<open>The reconstruction\<close>

text \<open>
  A list of positions of the end-sorted order as the reconstruction produces it from
  \<open>i\<close>: the first position is below \<open>i\<close>, and the rest is such a list from \<open>p + 1\<close> of
  the first.
\<close>

fun sel_ok :: "observation list \<Rightarrow> nat \<Rightarrow> nat list \<Rightarrow> bool" where
  "sel_ok obs_list i [] = True"
| "sel_ok obs_list i (q # ps) = (q < i \<and> sel_ok obs_list (pred_count obs_list q) ps)"

lemma sel_ok_mono: "sel_ok obs_list i ps \<Longrightarrow> i \<le> i' \<Longrightarrow> sel_ok obs_list i' ps"
  by (cases ps) simp_all

lemma reconstruct_spec:
  assumes "valid_intervals obs_list"
  shows "i \<le> length obs_list
         \<Longrightarrow> \<exists>ps. reconstruct (dp_weights_s obs_list) (dp_p obs_list) M (dp_indices obs_list)
                    i chosen
                  = Some (chosen @ map (\<lambda>q. dp_indices obs_list ! q) ps)
                \<and> sel_ok obs_list i ps
                \<and> (dp_table_ok obs_list (length obs_list) M \<and> dp_exact obs_list M
                    \<longrightarrow> sum_list (map (\<lambda>q. transformed_weight (sorted_task obs_list q)) ps)
                          = M ! i)"
proof (induction i arbitrary: chosen rule: less_induct)
  case (less i)
  show ?case
  proof (cases i)
    case 0
    have "reconstruct (dp_weights_s obs_list) (dp_p obs_list) M (dp_indices obs_list) 0 chosen
            = Some chosen"
      by (subst reconstruct.simps) simp
    then show ?thesis
      using 0 by (intro exI [of _ "[]"]) (simp add: dp_table_ok_def)
  next
    case (Suc k)
    have k: "k < length obs_list"
      using less.prems Suc by simp
    define incl where "incl = dp_incl_at obs_list M k"
    have incl: "dp_incl (dp_weights_s obs_list) (dp_p obs_list) M (Suc k) = incl"
      unfolding incl_def by (rule dp_incl_eq [OF k])
    have c: "pred_count obs_list k \<le> k"
      by (rule pred_count_le_self [OF assms(1) k])
    have nat_p: "nat (dp_p obs_list ! k + 1) = pred_count obs_list k"
      by (simp add: dp_p_nth [OF k])
    show ?thesis
    proof (cases "incl \<ge> M ! k")
      case True
      have unfold: "reconstruct (dp_weights_s obs_list) (dp_p obs_list) M (dp_indices obs_list)
                      (Suc k) chosen
                    = reconstruct (dp_weights_s obs_list) (dp_p obs_list) M
                        (dp_indices obs_list) (pred_count obs_list k)
                        (chosen @ [dp_indices obs_list ! k])"
        using True by (subst reconstruct.simps) (simp add: incl nat_p)
      obtain ps where
        ps: "reconstruct (dp_weights_s obs_list) (dp_p obs_list) M (dp_indices obs_list)
               (pred_count obs_list k) (chosen @ [dp_indices obs_list ! k])
             = Some ((chosen @ [dp_indices obs_list ! k]) @ map (\<lambda>q. dp_indices obs_list ! q) ps)"
        and ok: "sel_ok obs_list (pred_count obs_list k) ps"
        and sum: "dp_table_ok obs_list (length obs_list) M \<and> dp_exact obs_list M
                  \<longrightarrow> sum_list (map (\<lambda>q. transformed_weight (sorted_task obs_list q)) ps)
                        = M ! pred_count obs_list k"
        using less.IH [of "pred_count obs_list k" "chosen @ [dp_indices obs_list ! k]"] c k Suc
        by auto
      have "reconstruct (dp_weights_s obs_list) (dp_p obs_list) M (dp_indices obs_list)
              (Suc k) chosen = Some (chosen @ map (\<lambda>q. dp_indices obs_list ! q) (k # ps))"
        using unfold ps by simp
      moreover have "sel_ok obs_list (Suc k) (k # ps)"
        using ok by simp
      moreover have "sum_list (map (\<lambda>q. transformed_weight (sorted_task obs_list q)) (k # ps))
                       = M ! Suc k"
        if t: "dp_table_ok obs_list (length obs_list) M \<and> dp_exact obs_list M"
      proof -
        have rec: "M ! Suc k = max (M ! k) (transformed_weight (sorted_task obs_list k)
                                   + M ! pred_count obs_list k)"
          using t k by (intro dp_table_recurrence) simp_all
        have "incl = transformed_weight (sorted_task obs_list k) + M ! pred_count obs_list k"
          using t k by (simp add: incl_def dp_exact_def)
        then show ?thesis
          using sum t True rec by simp
      qed
      ultimately show ?thesis
        unfolding Suc by blast
    next
      case False
      have unfold: "reconstruct (dp_weights_s obs_list) (dp_p obs_list) M (dp_indices obs_list)
                      (Suc k) chosen
                    = reconstruct (dp_weights_s obs_list) (dp_p obs_list) M
                        (dp_indices obs_list) k chosen"
        using False by (subst reconstruct.simps) (simp add: incl)
      obtain ps where
        ps: "reconstruct (dp_weights_s obs_list) (dp_p obs_list) M (dp_indices obs_list)
               k chosen = Some (chosen @ map (\<lambda>q. dp_indices obs_list ! q) ps)"
        and ok: "sel_ok obs_list k ps"
        and sum: "dp_table_ok obs_list (length obs_list) M \<and> dp_exact obs_list M
                  \<longrightarrow> sum_list (map (\<lambda>q. transformed_weight (sorted_task obs_list q)) ps)
                        = M ! k"
        using less.IH [of k chosen] k Suc by auto
      have "sel_ok obs_list (Suc k) ps"
        using ok by (rule sel_ok_mono) simp
      moreover have "sum_list (map (\<lambda>q. transformed_weight (sorted_task obs_list q)) ps)
                       = M ! Suc k"
        if t: "dp_table_ok obs_list (length obs_list) M \<and> dp_exact obs_list M"
      proof -
        have rec: "M ! Suc k = max (M ! k) (transformed_weight (sorted_task obs_list k)
                                   + M ! pred_count obs_list k)"
          using t k by (intro dp_table_recurrence) simp_all
        have "incl = transformed_weight (sorted_task obs_list k) + M ! pred_count obs_list k"
          using t k by (simp add: incl_def dp_exact_def)
        then have "M ! Suc k = M ! k"
          using False rec by simp
        then show ?thesis
          using sum t by simp
      qed
      ultimately show ?thesis
        unfolding Suc using unfold ps by auto
    qed
  qed
qed

lemma sel_ok_props:
  assumes "valid_intervals obs_list"
  shows "i \<le> length obs_list \<Longrightarrow> sel_ok obs_list i ps
         \<Longrightarrow> (\<forall>q\<in>set ps. q < i)
             \<and> sorted_wrt (\<lambda>q q'. q' < q \<and> endt (sorted_task obs_list q')
                                           \<le> start (sorted_task obs_list q)) ps"
proof (induction ps arbitrary: i)
  case Nil
  then show ?case by simp
next
  case (Cons q ps)
  have q: "q < i" and rest: "sel_ok obs_list (pred_count obs_list q) ps"
    using Cons.prems(2) by simp_all
  have qn: "q < length obs_list"
    using q Cons.prems(1) by simp
  have c: "pred_count obs_list q \<le> q"
    by (rule pred_count_le_self [OF assms qn])
  have ih: "(\<forall>q'\<in>set ps. q' < pred_count obs_list q)
             \<and> sorted_wrt (\<lambda>q q'. q' < q \<and> endt (sorted_task obs_list q')
                                           \<le> start (sorted_task obs_list q)) ps"
    using Cons.IH [OF _ rest] c qn by simp
  have "q' < q \<and> endt (sorted_task obs_list q') \<le> start (sorted_task obs_list q)"
    if "q' \<in> set ps" for q'
    using that ih c pred_count_below [OF qn, of q'] by auto
  moreover have "\<forall>q'\<in>set ps. q' < i"
    using ih c q by auto
  ultimately show ?case
    using ih q by simp
qed

text \<open>What the solver returns on valid intervals: the tasks at a list of positions as the
  reconstruction produces it, in increasing position; their total is \<open>M[n]\<close> when no sum
  of the table is rounded.\<close>

lemma dp_result:
  assumes "valid_intervals obs_list"
  shows "\<exists>ps. dynamic_weighted_interval_scheduling obs_list
                = Some (map (sorted_task obs_list) (rev ps))
             \<and> sel_ok obs_list (length obs_list) ps
             \<and> (dp_exact obs_list (dp_M obs_list)
                 \<longrightarrow> sum_list (map (\<lambda>q. transformed_weight (sorted_task obs_list q)) ps)
                       = dp_M obs_list ! length obs_list)"
proof (cases "length obs_list = 0")
  case True
  then have "dp_M obs_list ! length obs_list = 0"
    by (simp add: dp_M_def)
  then show ?thesis
    using True by (intro exI [of _ "[]"]) (simp add: dynamic_weighted_interval_scheduling_def)
next
  case False
  obtain ps where
    ps: "reconstruct (dp_weights_s obs_list) (dp_p obs_list) (dp_M obs_list)
           (dp_indices obs_list) (length obs_list) []
         = Some ([] @ map (\<lambda>q. dp_indices obs_list ! q) ps)"
    and ok: "sel_ok obs_list (length obs_list) ps"
    and sum: "dp_table_ok obs_list (length obs_list) (dp_M obs_list)
                \<and> dp_exact obs_list (dp_M obs_list)
              \<longrightarrow> sum_list (map (\<lambda>q. transformed_weight (sorted_task obs_list q)) ps)
                    = dp_M obs_list ! length obs_list"
    using reconstruct_spec [OF assms, of "length obs_list" "dp_M obs_list" "[]"] by auto
  have "dynamic_weighted_interval_scheduling obs_list
          = Some (map (\<lambda>idx. obs_list ! idx) (rev (map (\<lambda>q. dp_indices obs_list ! q) ps)))"
    using False ps by (simp add: dynamic_weighted_interval_scheduling_def Let_def)
  also have "map (\<lambda>idx. obs_list ! idx) (rev (map (\<lambda>q. dp_indices obs_list ! q) ps))
               = map (sorted_task obs_list) (rev ps)"
    by (simp add: rev_map sorted_task_def comp_def)
  finally show ?thesis
    using ok sum dp_M_ok [OF assms] by blast
qed

lemma sel_ok_non_overlapping:
  assumes "valid_intervals obs_list" "sel_ok obs_list (length obs_list) ps"
  shows "non_overlapping (map (sorted_task obs_list) (rev ps))"
proof -
  have "sorted_wrt (\<lambda>q q'. q' < q \<and> endt (sorted_task obs_list q')
                                           \<le> start (sorted_task obs_list q)) ps"
    using sel_ok_props [OF assms(1) _ assms(2)] by simp
  then have "sorted_wrt (\<lambda>q q'. compatible (sorted_task obs_list q') (sorted_task obs_list q)) ps"
    by (rule sorted_wrt_mono_rel [rotated]) (simp add: compatible_def)
  then have "sorted_wrt (\<lambda>q q'. compatible (sorted_task obs_list q) (sorted_task obs_list q'))
               (rev ps)"
    by (simp add: sorted_wrt_rev)
  then show ?thesis
    by (simp add: non_overlapping_sorted_wrt sorted_wrt_map)
qed

subsection \<open>No feasible subset beats the table\<close>








subsection \<open>Sublists of the input as index sets\<close>





subsection \<open>The optimum by enumeration\<close>




section \<open>Inputs with an invalid interval\<close>

text \<open>
  When the first pass of the reconstruction from \<open>i = 1\<close> includes the task and \<open>p[0] = 0\<close>,
  the loop comes back to \<open>i = 1\<close> for ever. On a single task with \<open>end \<le> start\<close> the
  table is \<open>[0, w + 0]\<close>, and the sum \<open>w + M[1]\<close> of line 71 is not negative.
\<close>

lemma reconstruct_never_returns:
  assumes "dp_incl weights_s p M 1 \<ge> M ! 0" "nat (p ! 0 + 1) = 1"
  shows "reconstruct weights_s p M indices 1 chosen = None"
proof (rule ccontr)
  assume "reconstruct weights_s p M indices 1 chosen \<noteq> None"
  then obtain y where y: "reconstruct weights_s p M indices 1 chosen = Some y"
    by auto
  have "\<not> ((1::nat) = 1 \<and> weights_s = weights_s \<and> p = p \<and> M = M)"
  proof (rule reconstruct.raw_induct
      [where P = "\<lambda>ws p' M' idx i c y. \<not> (i = 1 \<and> ws = weights_s \<and> p' = p \<and> M' = M)",
        OF _ y])
    fix f ws p' M' idx i c r
    assume ih: "\<And>ws p' M' idx i c y. f ws p' M' idx i c = Some y
                  \<Longrightarrow> \<not> (i = 1 \<and> ws = weights_s \<and> p' = p \<and> M' = M)"
      and body: "(if 0 < i
                  then if M' ! (i - 1) \<le> dp_incl ws p' M' i
                       then f ws p' M' idx (nat (p' ! (i - 1) + 1)) (c @ [idx ! (i - 1)])
                       else f ws p' M' idx (i - 1) c
                  else Some c) = Some r"
    show "\<not> (i = 1 \<and> ws = weights_s \<and> p' = p \<and> M' = M)"
    proof
      assume eq: "i = 1 \<and> ws = weights_s \<and> p' = p \<and> M' = M"
      then have "f weights_s p M idx 1 (c @ [idx ! 0]) = Some r"
        using body assms by simp
      from ih [OF this] show False
        by simp
    qed
  qed
  then show False
    by simp
qed

lemma transformed_weight_nonneg: "0 \<le> weight ob \<Longrightarrow> 0 \<le> transformed_weight ob"
  by (simp add: transformed_weight_def)

lemma bisect_right_single: "e \<le> s \<Longrightarrow> bisect_right [e] s = 1"
  by (simp add: bisect_right_def bisect_right_loop.simps [of "[e]" s 0 "Suc 0"]
      bisect_right_loop.simps [of "[e]" s "Suc 0" "Suc 0"])

lemma dp_single_invalid:
  assumes "endt t \<le> start t" "0 \<le> weight t"
  shows "dynamic_weighted_interval_scheduling [t] = None"
proof -
  define m where "m = py_float_add (transformed_weight t) 0"
  have idx: "dp_indices [t] = [0]"
    by (simp add: dp_indices_def)
  have ws: "dp_weights_s [t] = [transformed_weight t]"
    by (simp add: dp_weights_s_def idx)
  have p: "dp_p [t] = [0]"
    using assms(1) by (simp add: dp_p_def dp_ends_s_def dp_starts_s_def idx bisect_right_single)
  have tw: "0 \<le> transformed_weight t"
    by (rule transformed_weight_nonneg [OF assms(2)])
  have m: "0 \<le> m"
    using tw by (simp add: m_def py_float_add_def double_round_nonneg)
  have M: "dp_M [t] = [0, m]"
    using m by (simp add: dp_M_def dp_step_def dp_incl_def Let_def ws p m_def)
  have "0 \<le> py_float_add (transformed_weight t) m"
    using tw m by (simp add: py_float_add_def double_round_nonneg)
  then have "reconstruct (dp_weights_s [t]) (dp_p [t]) (dp_M [t]) (dp_indices [t]) 1 [] = None"
    by (intro reconstruct_never_returns) (simp_all add: ws p M dp_incl_def Let_def)
  then show ?thesis
    by (simp add: dynamic_weighted_interval_scheduling_def)
qed

subsection \<open>The ant-colony solver on a single task with an invalid interval\<close>

text \<open>
  With one task whose end is not after its start, the only candidate successor of the
  task is the task itself, the one tour is that task, and no power \<open>**\<close> is taken.
\<close>

lemma bisect_left_single: "\<not> s < e \<Longrightarrow> bisect_left [s] e = 0"
  by (simp add: bisect_left_def bisect_left_loop.simps [of "[s]" e 0 "Suc 0"]
      bisect_left_loop.simps [of "[s]" e 0 0])

lemma single_edge_heuristic:
  assumes "slew_covers 1 slew_matrix"
  shows "edge_heuristic [t] slew_matrix 0 0 = Inr (weight t / max (slew_matrix ! 0 ! 0) 1)"
proof (cases slew_matrix)
  case Nil
  with assms show ?thesis
    by (simp add: slew_covers_def)
next
  case (Cons r rest)
  with assms have "0 < length r"
    by (cases r) (simp_all add: slew_covers_def)
  with Cons show ?thesis
    by (simp add: edge_heuristic_def slew_at_def list_get_def Let_def)
qed

lemma single_successors:
  assumes "endt t \<le> start t" "slew_covers 1 slew_matrix"
  shows "\<exists>succ. build_successors [t] slew_matrix top_k = Inr [succ] \<and> set succ \<subseteq> {0}"
proof -
  have pos: "bisect_left [start t] (endt t) = 0"
    using assms(1) by (intro bisect_left_single) simp
  have ord: "order_by_start [t] = [0]"
    by (simp add: order_by_start_def)
  note h = single_edge_heuristic [OF assms(2), of t]
  show ?thesis
  proof (cases "top_k = 0")
    case True
    then have "successors_of [t] slew_matrix top_k 0 = Inr []"
      by (simp add: successors_of_def Let_def ord pos py_slice_def)
    then show ?thesis
      by (simp add: build_successors_def)
  next
    case False
    then have "py_slice [0::nat] 0 (min (Suc 0) (top_k * 5)) = [0]"
      by (cases top_k) (simp_all add: py_slice_def)
    then have "successors_of [t] slew_matrix top_k 0 = Inr [0]"
      using False by (simp add: successors_of_def Let_def ord pos h)
    then show ?thesis
      by (simp add: build_successors_def)
  qed
qed

lemma single_heuristic:
  assumes "slew_covers 1 slew_matrix" "set succ \<subseteq> {0}"
  shows "\<exists>hrow. heuristic_row [t] slew_matrix 0 succ r0 = Inr hrow"
  using assms(2)
proof (induction succ arbitrary: r0)
  case Nil
  then show ?case by simp
next
  case (Cons j js)
  show ?case
    using Cons single_edge_heuristic [OF assms(1), of t] by simp
qed

lemma single_candidates:
  "set succ \<subseteq> {0}
   \<Longrightarrow> tour_candidates [t] pher heuristic alpha beta [True] 0 succ = Inr []"
  by (induction succ) (simp_all add: list_get_def)

lemma single_tour:
  assumes "set succ \<subseteq> {0}"
  shows "build_ant_tour [t] [succ] pher heuristic alpha beta g
           = Inr ([0], g\<lparr>taken := taken g + 1\<rparr>)"
  by (simp add: build_ant_tour_def random_randrange_def
      tour_loop.simps [of "[t]" "[succ]" pher heuristic alpha beta "[0]" "[True]"]
      list_get_def single_candidates [OF assms])

lemma single_score: "tour_score [t] [0] = Inr (weight t)"
  by (simp add: tour_score_def list_get_def)

text \<open>The tracked best is the initial one or the task.\<close>

definition single_best :: "real \<Rightarrow> real \<Rightarrow> nat list \<Rightarrow> bool" where
  "single_best w score sched \<longleftrightarrow> (score = 0 \<and> sched = []) \<or> (score = w \<and> sched = [0])"

lemma single_ants:
  assumes "set succ \<subseteq> {0}" "0 < weight t"
  shows "single_best (weight t) (best_score s) (best_schedule s)
         \<Longrightarrow> local_best s = None \<or> local_best s = Some [0]
         \<Longrightarrow> \<exists>s'. ants_loop [t] [succ] pher heuristic alpha beta k s = Inr s'
                  \<and> single_best (weight t) (best_score s') (best_schedule s')
                  \<and> (local_best s' = None \<or> local_best s' = Some [0])
                  \<and> (0 < k \<longrightarrow> best_score s' = weight t \<and> best_schedule s' = [0])"
proof (induction k arbitrary: s)
  case 0
  then show ?case by simp
next
  case (Suc k)
  define s1 where "s1 = (if weight t > local_best_score s
                      then s\<lparr>local_best_score := weight t, local_best := Some [0]\<rparr> else s)"
  define s2 where "s2 = (if weight t > best_score s1
                      then s1\<lparr>best_score := weight t, best_schedule := [0]\<rparr> else s1)"
  define s3 where "s3 = s2\<lparr>gen := (gen s)\<lparr>taken := taken (gen s) + 1\<rparr>\<rparr>"
  have step: "ants_loop [t] [succ] pher heuristic alpha beta (Suc k) s
                = ants_loop [t] [succ] pher heuristic alpha beta k s3"
    by (simp add: single_tour [OF assms(1)] single_score Let_def s1_def s2_def s3_def)
  have b: "best_score s3 = weight t \<and> best_schedule s3 = [0]"
    using Suc.prems(1) assms(2) by (auto simp: s1_def s2_def s3_def single_best_def)
  have l: "local_best s3 = None \<or> local_best s3 = Some [0]"
    using Suc.prems(2) by (auto simp: s1_def s2_def s3_def)
  have sb: "single_best (weight t) (best_score s3) (best_schedule s3)"
    using b by (simp add: single_best_def)
  obtain s' where r: "ants_loop [t] [succ] pher heuristic alpha beta k s3 = Inr s'"
    and sb': "single_best (weight t) (best_score s') (best_schedule s')"
    and l': "local_best s' = None \<or> local_best s' = Some [0]"
    and k': "0 < k \<longrightarrow> best_score s' = weight t \<and> best_schedule s' = [0]"
    using Suc.IH [OF sb l] by blast
  have "best_score s' = weight t \<and> best_schedule s' = [0]"
  proof (cases k)
    case 0
    then have "s' = s3" using r by simp
    then show ?thesis using b by simp
  next
    case (Suc k0)
    then show ?thesis using k' by simp
  qed
  then show ?case
    using r sb' l' unfolding step by blast
qed

lemma single_deposit:
  "lb = None \<or> lb = Some [0] \<Longrightarrow> deposit_pheromone successors lbs lb pher = Inr pher"
  by (auto simp: deposit_pheromone_def Let_def)

lemma single_iteration:
  assumes "set succ \<subseteq> {0}" "0 < weight t"
    and "single_best (weight t) (global_best_score st) (global_best_schedule st)"
  shows "\<exists>st'. aco_iteration [t] [succ] heuristic num_ants alpha beta evap st = Inr st'
                \<and> single_best (weight t) (global_best_score st') (global_best_schedule st')
                \<and> (0 < num_ants
                    \<longrightarrow> global_best_score st' = weight t \<and> global_best_schedule st' = [0])"
proof -
  define s0 :: ants_state where
    "s0 = \<lparr>local_best_score = 0, local_best = None, best_score = global_best_score st,
           best_schedule = global_best_schedule st, gen = generator st\<rparr>"
  obtain s' where r: "ants_loop [t] [succ] (trails st) heuristic alpha beta num_ants s0 = Inr s'"
    and sb': "single_best (weight t) (best_score s') (best_schedule s')"
    and l': "local_best s' = None \<or> local_best s' = Some [0]"
    and k': "0 < num_ants \<longrightarrow> best_score s' = weight t \<and> best_schedule s' = [0]"
    using single_ants [OF assms(1,2), of s0 "trails st" heuristic alpha beta num_ants] assms(3)
    by (auto simp: s0_def)
  have "aco_iteration [t] [succ] heuristic num_ants alpha beta evap st
          = Inr \<lparr>trails = evaporate evap (trails st), global_best_score = best_score s',
                 global_best_schedule = best_schedule s', generator = gen s'\<rparr>"
    using r by (simp add: aco_iteration_def s0_def [symmetric] Let_def single_deposit [OF l'])
  then show ?thesis
    using sb' k' by simp
qed

lemma single_loop:
  assumes "set succ \<subseteq> {0}" "0 < weight t" "0 < num_ants"
  shows "single_best (weight t) (global_best_score st) (global_best_schedule st)
         \<Longrightarrow> \<exists>st'. aco_loop [t] [succ] heuristic num_ants alpha beta evap k st = Inr st'
                \<and> single_best (weight t) (global_best_score st') (global_best_schedule st')
                \<and> (0 < k \<longrightarrow> global_best_schedule st' = [0])"
proof (induction k arbitrary: st)
  case 0
  then show ?case by simp
next
  case (Suc k)
  obtain st1 where r1: "aco_iteration [t] [succ] heuristic num_ants alpha beta evap st = Inr st1"
    and sb1: "single_best (weight t) (global_best_score st1) (global_best_schedule st1)"
    and b1: "global_best_score st1 = weight t \<and> global_best_schedule st1 = [0]"
    using single_iteration [OF assms(1,2) Suc.prems, of heuristic num_ants alpha beta evap]
      assms(3) by blast
  obtain st' where r: "aco_loop [t] [succ] heuristic num_ants alpha beta evap k st1 = Inr st'"
    and sb': "single_best (weight t) (global_best_score st') (global_best_schedule st')"
    and k': "0 < k \<longrightarrow> global_best_schedule st' = [0]"
    using Suc.IH [OF sb1] by blast
  have "global_best_schedule st' = [0]"
  proof (cases k)
    case 0
    then have "st' = st1" using r by simp
    then show ?thesis using b1 by simp
  next
    case (Suc k0)
    then show ?thesis using k' by simp
  qed
  then show ?case
    using r1 r sb' by simp
qed

lemma aco_single_invalid:
  assumes "endt t \<le> start t" "0 < weight t" "slew_covers 1 slew_matrix"
    and "0 < num_ants" "0 < iterations"
  shows "ant_colony_schedule [t] slew_matrix num_ants alpha beta evap iterations top_k g
           = Inr [t]"
proof -
  obtain succ where s: "build_successors [t] slew_matrix top_k = Inr [succ]"
    and sub: "set succ \<subseteq> {0}"
    using single_successors [OF assms(1,3)] by blast
  obtain hrow where "heuristic_row [t] slew_matrix 0 succ [] = Inr hrow"
    using single_heuristic [OF assms(3) sub] by blast
  then have h: "build_heuristic [t] slew_matrix [succ] = Inr [hrow]"
    by (simp add: build_heuristic_def)
  have "single_best (weight t) (global_best_score (aco_init [succ] g))
          (global_best_schedule (aco_init [succ] g))"
    by (simp add: aco_init_def single_best_def)
  then obtain st' where
    r: "aco_loop [t] [succ] [hrow] num_ants alpha beta evap iterations (aco_init [succ] g)
          = Inr st'"
    and b: "global_best_schedule st' = [0]"
    using single_loop [OF sub assms(2,4), of "aco_init [succ] g" "[hrow]" alpha beta evap
        iterations] assms(5) by blast
  show ?thesis
    by (simp add: ant_colony_schedule_def s h r b list_get_def)
qed

section \<open>An input on which a sum of the table is rounded\<close>













section \<open>Degenerate input\<close>

text \<open>
  C8. On the empty task list the exact solver, the ant-colony solver (for every
  configuration and generator) and the greedy baseline all return the empty schedule, and
  the score of the empty schedule is 0, as raw weight and as transformed weight.
\<close>

theorem empty_input_empty_schedule:
  "dynamic_weighted_interval_scheduling [] = Some []
   \<and> ant_colony_schedule [] slew_matrix num_ants alpha beta evap iterations top_k g = Inr []
   \<and> greedy_schedule [] = []
   \<and> total_weight [] = 0
   \<and> total_transformed_weight [] = 0"
  by (simp add: dynamic_weighted_interval_scheduling_def ant_colony_schedule_def
      greedy_schedule_def total_weight_def total_transformed_weight_def)

section \<open>Candidate-graph bounds\<close>

text \<open>
  C5. Whenever the construction of the candidate lists succeeds, for every task \<open>i\<close> the
  list \<open>successors[i]\<close> has at most \<open>top_k\<close> entries, and every entry \<open>j\<close> is a task index
  with \<open>start_j \<ge> end_i\<close>.
\<close>

theorem candidate_graph_bounds:
  assumes "build_successors observations slew_matrix top_k = Inr successors"
    and "i < length observations"
  shows "length (successors ! i) \<le> top_k
         \<and> (\<forall>j\<in>set (successors ! i).
               j < length observations
               \<and> start (observations ! j) \<ge> endt (observations ! i))"
  using successors_of_bounds [OF build_successors_nth [OF assms] assms(2)] by blast

theorem candidate_graph_bounds_witness:
  "build_successors [task ''A'' 0 1 1, task ''B'' 1 2 1, task ''C'' 1 3 5]
     [[0, 0, 0], [0, 0, 0], [0, 0, 0]] 1 = Inr [[2], [], []]
   \<and> (0::nat) < length [task ''A'' 0 1 1, task ''B'' 1 2 1, task ''C'' 1 3 5]
   \<and> length ([[2::nat], [], []] ! 0) \<le> (1::nat)
   \<and> list_all (\<lambda>j. j < length [task ''A'' 0 1 1, task ''B'' 1 2 1, task ''C'' 1 3 5]
         \<and> start ([task ''A'' 0 1 1, task ''B'' 1 2 1, task ''C'' 1 3 5] ! j)
             \<ge> endt ([task ''A'' 0 1 1, task ''B'' 1 2 1, task ''C'' 1 3 5] ! 0))
       ([[2], [], []] ! 0)"
proof -
  have h: "build_successors [task ''A'' 0 1 1, task ''B'' 1 2 1, task ''C'' 1 3 5]
     [[0, 0, 0], [0, 0, 0], [0, 0, 0]] 1 = Inr [[2], [], []]"
    by code_simp
  have l: "(0::nat) < length [task ''A'' 0 1 1, task ''B'' 1 2 1, task ''C'' 1 3 5]"
    by simp
  show ?thesis
    using candidate_graph_bounds [OF h l] by (intro conjI h l) (simp_all add: task_def)
qed

section \<open>Pheromone sparsity\<close>

text \<open>
  C4. A run of \<open>ant_colony_schedule\<close> starts the main loop in the state \<open>aco_init\<close>; the
  state after \<open>k\<close> passes is \<open>aco_loop \<dots> k\<close> of it. The key set of every row of the
  pheromone table lies in the matching candidate list after initialisation, after the
  deposit pass of every iteration (the table of the state reached), and after the
  evaporation pass that follows that state.
\<close>

theorem pheromone_sparsity:
  assumes "aco_loop observations successors heuristic num_ants alpha beta evap k
             (aco_init successors g) = Inr st"
  shows "pher_sparse successors (init_pheromone successors)
         \<and> pher_sparse successors (trails st)
         \<and> pher_sparse successors (evaporate evap (trails st))"
proof -
  have init: "pher_sparse successors (trails (aco_init successors g))"
    by (simp add: aco_init_def init_pheromone_sparse)
  have "pher_sparse successors (trails st)"
    by (rule aco_loop_sparse [OF assms init])
  then show ?thesis
    by (simp add: init_pheromone_sparse evaporate_sparse)
qed

theorem pheromone_sparsity_witness:
  "\<exists>st. aco_loop [task ''A'' 0 1 1, task ''B'' 1 2 1, task ''C'' 1 3 5]
          [[2], [], []] [[(2, 5)], [], []] 2 1 2 (3 / 10) 2
          (aco_init [[2], [], []] example_rng) = Inr st
        \<and> trails st = [[(2, 389 / 100)], [], []]
        \<and> pher_sparse [[2], [], []] (init_pheromone [[2], [], []])
        \<and> pher_sparse [[2], [], []] (trails st)
        \<and> pher_sparse [[2], [], []] (evaporate (3 / 10) (trails st))"
proof -
  have "case aco_loop [task ''A'' 0 1 1, task ''B'' 1 2 1, task ''C'' 1 3 5]
          [[2], [], []] [[(2, 5)], [], []] 2 1 2 (3 / 10) 2
          (aco_init [[2], [], []] example_rng) of
          Inl e \<Rightarrow> False | Inr st \<Rightarrow> trails st = [[(2, 389 / 100)], [], []]"
    by code_simp
  then obtain st where h: "aco_loop [task ''A'' 0 1 1, task ''B'' 1 2 1, task ''C'' 1 3 5]
          [[2], [], []] [[(2, 5)], [], []] 2 1 2 (3 / 10) 2
          (aco_init [[2], [], []] example_rng) = Inr st"
    and t: "trails st = [[(2, 389 / 100)], [], []]"
    by (auto split: sum.splits)
  show ?thesis
    using h t pheromone_sparsity [OF h] by (intro exI [of _ st]) (simp only: simp_thms)
qed

section \<open>Monotonic improvement\<close>

text \<open>
  C6. Within one run of the main loop, started in \<open>aco_init\<close> with any generator, the
  tracked global-best score after \<open>j\<close> iterations is at most the one after \<open>k\<close>
  iterations whenever \<open>j \<le> k\<close>; in particular it does not decrease from an iteration to
  the next.
\<close>

theorem global_best_score_monotone:
  assumes "aco_loop observations successors heuristic num_ants alpha beta evap j
             (aco_init successors g) = Inr st_j"
    and "aco_loop observations successors heuristic num_ants alpha beta evap k
             (aco_init successors g) = Inr st_k"
    and "j \<le> k"
  shows "global_best_score st_j \<le> global_best_score st_k"
proof -
  from \<open>j \<le> k\<close> obtain m where k: "k = j + m"
    using le_Suc_ex by blast
  have "aco_loop observations successors heuristic num_ants alpha beta evap m st_j = Inr st_k"
    using assms(2) unfolding k aco_loop_add assms(1) by simp
  then show ?thesis
    by (rule aco_loop_best_score_mono)
qed

theorem global_best_score_monotone_witness:
  "\<exists>st_j st_k.
     aco_loop [task ''A'' 0 1 1, task ''B'' 1 2 1, task ''C'' 1 3 5]
       [[2], [], []] [[(2, 5)], [], []] 1 1 2 (3 / 10) 1
       (aco_init [[2], [], []] (example_rng\<lparr>taken := 1\<rparr>)) = Inr st_j
     \<and> aco_loop [task ''A'' 0 1 1, task ''B'' 1 2 1, task ''C'' 1 3 5]
       [[2], [], []] [[(2, 5)], [], []] 1 1 2 (3 / 10) 2
       (aco_init [[2], [], []] (example_rng\<lparr>taken := 1\<rparr>)) = Inr st_k
     \<and> (1::nat) \<le> 2
     \<and> global_best_score st_j = 1 \<and> global_best_score st_k = 5
     \<and> global_best_score st_j \<le> global_best_score st_k"
proof -
  have "case aco_loop [task ''A'' 0 1 1, task ''B'' 1 2 1, task ''C'' 1 3 5]
       [[2], [], []] [[(2, 5)], [], []] 1 1 2 (3 / 10) 1
       (aco_init [[2], [], []] (example_rng\<lparr>taken := 1\<rparr>)) of
          Inl e \<Rightarrow> False | Inr st \<Rightarrow> global_best_score st = 1"
    by code_simp
  then obtain st_j where hj: "aco_loop [task ''A'' 0 1 1, task ''B'' 1 2 1, task ''C'' 1 3 5]
       [[2], [], []] [[(2, 5)], [], []] 1 1 2 (3 / 10) 1
       (aco_init [[2], [], []] (example_rng\<lparr>taken := 1\<rparr>)) = Inr st_j"
    and vj: "global_best_score st_j = 1"
    by (auto split: sum.splits)
  have "case aco_loop [task ''A'' 0 1 1, task ''B'' 1 2 1, task ''C'' 1 3 5]
       [[2], [], []] [[(2, 5)], [], []] 1 1 2 (3 / 10) 2
       (aco_init [[2], [], []] (example_rng\<lparr>taken := 1\<rparr>)) of
          Inl e \<Rightarrow> False | Inr st \<Rightarrow> global_best_score st = 5"
    by code_simp
  then obtain st_k where hk: "aco_loop [task ''A'' 0 1 1, task ''B'' 1 2 1, task ''C'' 1 3 5]
       [[2], [], []] [[(2, 5)], [], []] 1 1 2 (3 / 10) 2
       (aco_init [[2], [], []] (example_rng\<lparr>taken := 1\<rparr>)) = Inr st_k"
    and vk: "global_best_score st_k = 5"
    by (auto split: sum.splits)
  have l: "(1::nat) \<le> 2"
    by simp
  show ?thesis
    using hj hk l vj vk global_best_score_monotone [OF hj hk l]
    by (intro exI [of _ st_j] exI [of _ st_k]) (simp only: simp_thms)
qed

section \<open>Feasibility of the ant-colony solver\<close>

text \<open>
  C2. When every task has \<open>end > start\<close>: every tour an ant constructs (from any candidate
  lists, tables and generator) is a list of task indices without repetition whose tasks are
  distinct and pairwise non-overlapping; and every schedule \<open>ant_colony_schedule\<close> returns
  is a duplicate-free, pairwise non-overlapping list of tasks of the input.
\<close>

theorem aco_tours_feasible:
  assumes "valid_intervals observations"
  shows "(build_ant_tour observations successors pher heuristic alpha beta g = Inr (tour, g')
          \<longrightarrow> distinct tour \<and> list_all (\<lambda>j. j < length observations) tour
              \<and> distinct (map (\<lambda>i. observations ! i) tour)
              \<and> non_overlapping (map (\<lambda>i. observations ! i) tour))
       \<and> (ant_colony_schedule observations slew_matrix num_ants alpha beta evap iterations
            top_k g0 = Inr sched
          \<longrightarrow> distinct sched \<and> non_overlapping sched \<and> set sched \<subseteq> set observations)"
proof (intro conjI impI)
  have valid: "\<forall>x\<in>set observations. start x < endt x"
    using assms by (simp add: valid_intervals_def list_all_iff)
  {
    fix t assume good: "good_tour observations t"
    have no: "non_overlapping (map (\<lambda>i. observations ! i) t)"
      by (rule good_tour_non_overlapping [OF good assms])
    have sub: "set (map (\<lambda>i. observations ! i) t) \<subseteq> set observations"
      using good by (auto simp: good_tour_def list_all_iff)
    have "distinct (map (\<lambda>i. observations ! i) t)"
      using no sub valid by (intro non_overlapping_valid_distinct) auto
    note no sub this
  }
  note tasks = this
  {
    assume "build_ant_tour observations successors pher heuristic alpha beta g = Inr (tour, g')"
    then have good: "good_tour observations tour"
      by (rule build_ant_tour_good)
    show "distinct tour" "list_all (\<lambda>j. j < length observations) tour"
      using good by (simp_all add: good_tour_def)
    show "distinct (map (\<lambda>i. observations ! i) tour)"
      "non_overlapping (map (\<lambda>i. observations ! i) tour)"
      using tasks [OF good] by simp_all
  }
  {
    assume "ant_colony_schedule observations slew_matrix num_ants alpha beta evap iterations
            top_k g0 = Inr sched"
    then obtain t where good: "good_tour observations t"
      and sched: "sched = sort_key start (map (\<lambda>i. observations ! i) t)"
      using ant_colony_schedule_result by blast
    show "distinct sched" "non_overlapping sched" "set sched \<subseteq> set observations"
      using tasks [OF good] by (simp_all add: sched non_overlapping_sort_key)
  }
qed

theorem aco_tours_feasible_witness:
  "valid_intervals [task ''A'' 0 1 1, task ''B'' 1 2 1, task ''C'' 1 3 5]
   \<and> (\<exists>tour g'.
         build_ant_tour [task ''A'' 0 1 1, task ''B'' 1 2 1, task ''C'' 1 3 5]
           [[2], [], []] [[(2, 1)], [], []] [[(2, 5)], [], []] 1 2 example_rng = Inr (tour, g')
         \<and> tour = [0, 2]
         \<and> distinct tour
         \<and> non_overlapping
             (map (\<lambda>i. [task ''A'' 0 1 1, task ''B'' 1 2 1, task ''C'' 1 3 5] ! i) tour))
   \<and> ant_colony_schedule [task ''A'' 0 1 1, task ''B'' 1 2 1, task ''C'' 1 3 5]
        [[0, 0, 0], [0, 0, 0], [0, 0, 0]] 2 1 2 (3 / 10) 2 1 example_rng
      = Inr [task ''A'' 0 1 1, task ''C'' 1 3 5]
   \<and> distinct [task ''A'' 0 1 1, task ''C'' 1 3 5]
   \<and> non_overlapping [task ''A'' 0 1 1, task ''C'' 1 3 5]"
proof -
  have v: "valid_intervals [task ''A'' 0 1 1, task ''B'' 1 2 1, task ''C'' 1 3 5]"
    by (simp add: valid_intervals_def task_def)
  have "case build_ant_tour [task ''A'' 0 1 1, task ''B'' 1 2 1, task ''C'' 1 3 5]
           [[2], [], []] [[(2, 1)], [], []] [[(2, 5)], [], []] 1 2 example_rng of
          Inl e \<Rightarrow> False | Inr (tour, g') \<Rightarrow> tour = [0, 2]"
    by code_simp
  then obtain g' where
    b: "build_ant_tour [task ''A'' 0 1 1, task ''B'' 1 2 1, task ''C'' 1 3 5]
           [[2], [], []] [[(2, 1)], [], []] [[(2, 5)], [], []] 1 2 example_rng = Inr ([0, 2], g')"
    by (auto split: sum.splits)
  have a: "ant_colony_schedule [task ''A'' 0 1 1, task ''B'' 1 2 1, task ''C'' 1 3 5]
        [[0, 0, 0], [0, 0, 0], [0, 0, 0]] 2 1 2 (3 / 10) 2 1 example_rng
      = Inr [task ''A'' 0 1 1, task ''C'' 1 3 5]"
    by code_simp
  have r: "(distinct [0, 2::nat]
      \<and> list_all (\<lambda>j. j < length [task ''A'' 0 1 1, task ''B'' 1 2 1, task ''C'' 1 3 5]) [0, 2]
      \<and> distinct (map (\<lambda>i. [task ''A'' 0 1 1, task ''B'' 1 2 1, task ''C'' 1 3 5] ! i) [0, 2])
      \<and> non_overlapping
          (map (\<lambda>i. [task ''A'' 0 1 1, task ''B'' 1 2 1, task ''C'' 1 3 5] ! i) [0, 2]))
    \<and> (distinct [task ''A'' 0 1 1, task ''C'' 1 3 5]
      \<and> non_overlapping [task ''A'' 0 1 1, task ''C'' 1 3 5]
      \<and> set [task ''A'' 0 1 1, task ''C'' 1 3 5]
          \<subseteq> set [task ''A'' 0 1 1, task ''B'' 1 2 1, task ''C'' 1 3 5])"
    using aco_tours_feasible [OF v, where successors = "[[2], [], []]"
        and pher = "[[(2, 1)], [], []]" and heuristic = "[[(2, 5)], [], []]"
        and alpha = 1 and beta = 2 and g = example_rng and tour = "[0, 2]" and g' = g'
        and slew_matrix = "[[0, 0, 0], [0, 0, 0], [0, 0, 0]]" and num_ants = 2
        and evap = "3 / 10" and iterations = 2 and top_k = 1 and ?g0.0 = example_rng
        and sched = "[task ''A'' 0 1 1, task ''C'' 1 3 5]"] a b
    by (simp only: simp_thms)
  show ?thesis
    using v a b r by (intro conjI exI [of _ "[0, 2]"] exI [of _ g']) (simp_all only: simp_thms)
qed

section \<open>Zero weights\<close>

text \<open>
  C10. On a non-empty input in which every task has weight 0, \<open>ant_colony_schedule\<close>
  never returns a non-empty schedule: whenever it returns, it returns the empty list, and
  it does return (the empty list) when the slew matrix covers the tasks and \<open>alpha\<close> and
  \<open>beta\<close> are not negative. The best tour is only replaced by a tour whose raw-weight
  score is strictly greater than the best score, initially 0, although every tour an ant
  constructs has at least one task.
\<close>

theorem zero_weights_empty_schedule:
  assumes "observations \<noteq> []" "weights_zero observations"
  shows "(ant_colony_schedule observations slew_matrix num_ants alpha beta evap iterations
            top_k g = Inr sched \<longrightarrow> sched = [])
       \<and> (slew_covers (length observations) slew_matrix \<and> 0 \<le> alpha \<and> 0 \<le> beta
          \<longrightarrow> ant_colony_schedule observations slew_matrix num_ants alpha beta evap iterations
                top_k g = Inr [])
       \<and> (build_ant_tour observations successors pher heuristic alpha beta g1 = Inr (tour, g')
          \<longrightarrow> tour \<noteq> [])"
proof (intro conjI impI)
  assume "ant_colony_schedule observations slew_matrix num_ants alpha beta evap iterations
            top_k g = Inr sched"
  then show "sched = []"
    by (rule ant_colony_schedule_zero [OF assms(2)])
next
  assume wf: "slew_covers (length observations) slew_matrix \<and> 0 \<le> alpha \<and> 0 \<le> beta"
  then obtain s where
    s: "ant_colony_schedule observations slew_matrix num_ants alpha beta evap iterations
          top_k g = Inr s"
    using ant_colony_schedule_total [OF _ weights_zero_nonneg [OF assms(2)]] by blast
  then have "s = []"
    by (rule ant_colony_schedule_zero [OF assms(2)])
  with s show "ant_colony_schedule observations slew_matrix num_ants alpha beta evap iterations
          top_k g = Inr []"
    by simp
next
  assume "build_ant_tour observations successors pher heuristic alpha beta g1 = Inr (tour, g')"
  then show "tour \<noteq> []"
    by (rule build_ant_tour_nonempty)
qed

theorem zero_weights_empty_schedule_witness:
  "[task ''A'' 0 1 0, task ''B'' 1 2 0] \<noteq> []
   \<and> weights_zero [task ''A'' 0 1 0, task ''B'' 1 2 0]
   \<and> slew_covers (length [task ''A'' 0 1 0, task ''B'' 1 2 0]) [[0, 0], [0, 0]]
   \<and> ant_colony_schedule [task ''A'' 0 1 0, task ''B'' 1 2 0] [[0, 0], [0, 0]] 2 1 2 (3 / 10) 2 1
        example_rng = Inr []
   \<and> (\<exists>g'. build_ant_tour [task ''A'' 0 1 0, task ''B'' 1 2 0] [[1], []] [[(1, 1)], []]
               [[(1, 0)], []] 1 2 example_rng = Inr ([0, 1], g')
            \<and> [0, 1::nat] \<noteq> [])"
proof -
  have ne: "[task ''A'' 0 1 0, task ''B'' 1 2 0] \<noteq> []"
    by simp
  have z: "weights_zero [task ''A'' 0 1 0, task ''B'' 1 2 0]"
    by (simp add: weights_zero_def task_def)
  have c: "slew_covers (length [task ''A'' 0 1 0, task ''B'' 1 2 0]) [[0, 0], [0, 0]]"
    by (simp add: slew_covers_def)
  have "case build_ant_tour [task ''A'' 0 1 0, task ''B'' 1 2 0] [[1], []] [[(1, 1)], []]
               [[(1, 0)], []] 1 2 example_rng of
          Inl e \<Rightarrow> False | Inr (tour, g') \<Rightarrow> tour = [0, 1]"
    by code_simp
  then obtain g' where
    b: "build_ant_tour [task ''A'' 0 1 0, task ''B'' 1 2 0] [[1], []] [[(1, 1)], []]
               [[(1, 0)], []] 1 2 example_rng = Inr ([0, 1], g')"
    by (auto split: sum.splits)
  note r = zero_weights_empty_schedule [OF ne z, where slew_matrix = "[[0, 0], [0, 0]]"
      and alpha = 1 and beta = 2 and num_ants = 2 and evap = "3 / 10" and iterations = 2
      and top_k = 1 and g = example_rng and successors = "[[1], []]"
      and pher = "[[(1, 1)], []]" and heuristic = "[[(1, 0)], []]" and ?g1.0 = example_rng
      and tour = "[0, 1]" and g' = g']
  have a: "ant_colony_schedule [task ''A'' 0 1 0, task ''B'' 1 2 0] [[0, 0], [0, 0]] 2 1 2
             (3 / 10) 2 1 example_rng = Inr []"
    using r c by simp
  have t: "[0, 1::nat] \<noteq> []"
    using r b by blast
  show ?thesis
    using ne z c a b t by (intro conjI exI [of _ g']) (simp_all only: simp_thms)
qed

section \<open>The zero-total fallback\<close>

text \<open>
  C9, as stated, fails. Task \<open>A\<close> (0 to 1, weight 1) has the candidate successor \<open>B\<close>
  (1 to 2, weight 0). With \<open>evap = 1\<close> and one ant per iteration that starts the first
  tour at \<open>B\<close>, the first evaporation deletes the trail of the edge and nothing is
  deposited. In the second iteration the ant starts at \<open>A\<close>: \<open>B\<close> is unused and
  start-feasible, its selection weight is \<open>0 * 0 = 0\<close>, so the feasible set is non-empty
  with total weight zero; but line 92 skips \<open>B\<close> (\<open>tau <= 0 and eta <= 0\<close>), \<open>cand\<close> is
  empty and the tour ends as \<open>[A]\<close>.
\<close>

theorem zero_total_fallback_counterexample:
  "build_successors [task ''A'' 0 1 1, task ''B'' 1 2 0] [[0, 0], [0, 0]] 1 = Inr [[1], []]
   \<and> build_heuristic [task ''A'' 0 1 1, task ''B'' 1 2 0] [[0, 0], [0, 0]] [[1], []]
       = Inr [[(1, 0)], []]
   \<and> map_sum id trails
        (aco_loop [task ''A'' 0 1 1, task ''B'' 1 2 0] [[1], []] [[(1, 0)], []] 1 1 2 1 1
           (aco_init [[1], []] (example_rng\<lparr>taken := 1\<rparr>))) = Inr [[], []]
   \<and> feasible_unused [task ''A'' 0 1 1, task ''B'' 1 2 0] [True, False] 0 [1] = [1]
   \<and> selection_weight [[], []] [[(1, 0)], []] 1 2 0 1 = Inr 0
   \<and> map_sum id fst
        (tour_loop [task ''A'' 0 1 1, task ''B'' 1 2 0] [[1], []] [[], []] [[(1, 0)], []] 1 2
           [0] [True, False] example_rng) = Inr [0]
   \<and> ant_colony_schedule [task ''A'' 0 1 1, task ''B'' 1 2 0] [[0, 0], [0, 0]] 1 1 2 1 2 1
        (example_rng\<lparr>taken := 1\<rparr>) = Inr [task ''A'' 0 1 1]"
proof (intro conjI)
  show "build_successors [task ''A'' 0 1 1, task ''B'' 1 2 0] [[0, 0], [0, 0]] 1
          = Inr [[1], []]"
    by code_simp
  show "build_heuristic [task ''A'' 0 1 1, task ''B'' 1 2 0] [[0, 0], [0, 0]] [[1], []]
       = Inr [[(1, 0)], []]"
    by code_simp
  show "map_sum id trails
        (aco_loop [task ''A'' 0 1 1, task ''B'' 1 2 0] [[1], []] [[(1, 0)], []] 1 1 2 1 1
           (aco_init [[1], []] (example_rng\<lparr>taken := 1\<rparr>))) = Inr [[], []]"
    by code_simp
  show "feasible_unused [task ''A'' 0 1 1, task ''B'' 1 2 0] [True, False] 0 [1] = [1]"
    by code_simp
  show "selection_weight [[], []] [[(1, 0)], []] 1 2 0 1 = Inr 0"
    by code_simp
  show "map_sum id fst
        (tour_loop [task ''A'' 0 1 1, task ''B'' 1 2 0] [[1], []] [[], []] [[(1, 0)], []] 1 2
           [0] [True, False] example_rng) = Inr [0]"
    by code_simp
  show "ant_colony_schedule [task ''A'' 0 1 1, task ''B'' 1 2 0] [[0, 0], [0, 0]] 1 1 2 1 2 1
        (example_rng\<lparr>taken := 1\<rparr>) = Inr [task ''A'' 0 1 1]"
    by code_simp
qed

text \<open>
  C9, amended. Let \<open>cand\<close> be the list the ant keeps for the last chosen task. Every kept
  pair \<open>(s, j)\<close> is an unused start-feasible candidate successor \<open>j\<close> with its selection
  weight \<open>s = tau * eta\<close>, where \<open>tau > 0\<close> or \<open>eta > 0\<close>; every unused start-feasible
  candidate that is not kept has \<open>tau \<le> 0\<close> and \<open>eta \<le> 0\<close>. If \<open>cand\<close> is non-empty
  and its total weight is at most 0, the tour is extended, with no random draw, by the
  kept candidate whose pair (weight, index) is greatest: a highest-scoring one. If nothing
  is kept the tour ends.
\<close>

theorem zero_total_fallback:
  assumes "selected \<noteq> []"
    and "list_get successors (last selected) = Inr succ"
    and "tour_candidates observations pher heuristic alpha beta used (last selected) succ
           = Inr cand"
  shows "(\<forall>(s, j)\<in>set cand.
            j \<in> set (feasible_unused observations used (last selected) succ)
            \<and> (\<exists>prow hrow tau eta.
                  list_get pher (last selected) = Inr prow
                  \<and> py_pow (dict_get prow j 0) alpha = Inr tau
                  \<and> list_get heuristic (last selected) = Inr hrow
                  \<and> py_pow (dict_get hrow j 0) beta = Inr eta
                  \<and> s = tau * eta \<and> (0 < tau \<or> 0 < eta)))
       \<and> (\<forall>j\<in>set (feasible_unused observations used (last selected) succ).
            j \<in> snd ` set cand
            \<or> (\<exists>prow hrow tau eta.
                  list_get pher (last selected) = Inr prow
                  \<and> py_pow (dict_get prow j 0) alpha = Inr tau
                  \<and> list_get heuristic (last selected) = Inr hrow
                  \<and> py_pow (dict_get hrow j 0) beta = Inr eta
                  \<and> tau \<le> 0 \<and> eta \<le> 0))
       \<and> (cand \<noteq> [] \<and> sum_list (map fst cand) \<le> 0 \<longrightarrow>
            (\<exists>s chosen. (s, chosen) \<in> set cand \<and> (\<forall>x\<in>set cand. x \<le> (s, chosen))
               \<and> tour_loop observations successors pher heuristic alpha beta selected used g
                   = tour_loop observations successors pher heuristic alpha beta
                       (selected @ [chosen]) (used[chosen := True]) g))
       \<and> (cand = [] \<longrightarrow>
            tour_loop observations successors pher heuristic alpha beta selected used g
              = Inr (selected, g))"
proof (intro conjI)
  show "\<forall>(s, j)\<in>set cand.
            j \<in> set (feasible_unused observations used (last selected) succ)
            \<and> (\<exists>prow hrow tau eta.
                  list_get pher (last selected) = Inr prow
                  \<and> py_pow (dict_get prow j 0) alpha = Inr tau
                  \<and> list_get heuristic (last selected) = Inr hrow
                  \<and> py_pow (dict_get hrow j 0) beta = Inr eta
                  \<and> s = tau * eta \<and> (0 < tau \<or> 0 < eta))"
    using tour_candidates_kept [OF assms(3)] by blast
  show "\<forall>j\<in>set (feasible_unused observations used (last selected) succ).
            j \<in> snd ` set cand
            \<or> (\<exists>prow hrow tau eta.
                  list_get pher (last selected) = Inr prow
                  \<and> py_pow (dict_get prow j 0) alpha = Inr tau
                  \<and> list_get heuristic (last selected) = Inr hrow
                  \<and> py_pow (dict_get hrow j 0) beta = Inr eta
                  \<and> tau \<le> 0 \<and> eta \<le> 0)"
    using tour_candidates_dropped [OF assms(3)] by blast
  show "cand \<noteq> [] \<and> sum_list (map fst cand) \<le> 0 \<longrightarrow>
            (\<exists>s chosen. (s, chosen) \<in> set cand \<and> (\<forall>x\<in>set cand. x \<le> (s, chosen))
               \<and> tour_loop observations successors pher heuristic alpha beta selected used g
                   = tour_loop observations successors pher heuristic alpha beta
                       (selected @ [chosen]) (used[chosen := True]) g)"
  proof
    assume a: "cand \<noteq> [] \<and> sum_list (map fst cand) \<le> 0"
    define top where "top = hd (rev (sort cand))"
    have ch: "choose_next cand g = (snd top, g)"
      using a by (simp add: choose_next_def top_def)
    have "tour_loop observations successors pher heuristic alpha beta selected used g
            = tour_loop observations successors pher heuristic alpha beta
                (selected @ [snd top]) (used[snd top := True]) g"
      using a ch by (simp add: tour_loop_unfold [OF assms])
    moreover have "(fst top, snd top) \<in> set cand"
      using sorted_desc_hd(1) [of cand] a by (simp add: top_def)
    moreover have "\<forall>x\<in>set cand. x \<le> (fst top, snd top)"
      using sorted_desc_hd(2) [of cand] a by (simp add: top_def)
    ultimately show "\<exists>s chosen. (s, chosen) \<in> set cand \<and> (\<forall>x\<in>set cand. x \<le> (s, chosen))
               \<and> tour_loop observations successors pher heuristic alpha beta selected used g
                   = tour_loop observations successors pher heuristic alpha beta
                       (selected @ [chosen]) (used[chosen := True]) g"
      by blast
  qed
  show "cand = [] \<longrightarrow>
            tour_loop observations successors pher heuristic alpha beta selected used g
              = Inr (selected, g)"
    by (simp add: tour_loop_unfold [OF assms])
qed


theorem zero_total_fallback_witness:
  "[0::nat] \<noteq> []
   \<and> list_get [[1, 2], [], []] (last [0::nat]) = Inr [1, 2]
   \<and> tour_candidates [task ''A'' 0 1 0, task ''B'' 1 2 0, task ''C'' 1 3 0]
        [[(1, 1), (2, 1)], [], []] [[(1, 0), (2, 0)], [], []] 1 2 [True, False, False]
        (last [0]) [1, 2] = Inr [(0, 1), (0, 2)]
   \<and> sum_list (map fst [(0::real, 1::nat), (0, 2)]) \<le> 0
   \<and> (\<exists>s chosen. (s, chosen) \<in> set [(0::real, 1::nat), (0, 2)]
         \<and> tour_loop [task ''A'' 0 1 0, task ''B'' 1 2 0, task ''C'' 1 3 0] [[1, 2], [], []]
             [[(1, 1), (2, 1)], [], []] [[(1, 0), (2, 0)], [], []] 1 2 [0]
             [True, False, False] example_rng
           = tour_loop [task ''A'' 0 1 0, task ''B'' 1 2 0, task ''C'' 1 3 0] [[1, 2], [], []]
               [[(1, 1), (2, 1)], [], []] [[(1, 0), (2, 0)], [], []] 1 2 ([0] @ [chosen])
               ([True, False, False][chosen := True]) example_rng)
   \<and> map_sum id fst
        (tour_loop [task ''A'' 0 1 0, task ''B'' 1 2 0, task ''C'' 1 3 0] [[1, 2], [], []]
           [[(1, 1), (2, 1)], [], []] [[(1, 0), (2, 0)], [], []] 1 2 [0]
           [True, False, False] example_rng) = Inr [0, 2]"
proof -
  have ne: "[0::nat] \<noteq> []"
    by simp
  have sc: "list_get [[1, 2], [], []] (last [0::nat]) = Inr [1, 2]"
    by (simp add: list_get_def)
  have tc: "tour_candidates [task ''A'' 0 1 0, task ''B'' 1 2 0, task ''C'' 1 3 0]
        [[(1, 1), (2, 1)], [], []] [[(1, 0), (2, 0)], [], []] 1 2 [True, False, False]
        (last [0]) [1, 2] = Inr [(0, 1), (0, 2)]"
    by code_simp
  have tot: "sum_list (map fst [(0::real, 1::nat), (0, 2)]) \<le> 0"
    by simp
  have nonempty: "[(0::real, 1::nat), (0, 2)] \<noteq> []"
    by simp
  have ex: "\<exists>s chosen. (s, chosen) \<in> set [(0::real, 1::nat), (0, 2)]
         \<and> tour_loop [task ''A'' 0 1 0, task ''B'' 1 2 0, task ''C'' 1 3 0] [[1, 2], [], []]
             [[(1, 1), (2, 1)], [], []] [[(1, 0), (2, 0)], [], []] 1 2 [0]
             [True, False, False] example_rng
           = tour_loop [task ''A'' 0 1 0, task ''B'' 1 2 0, task ''C'' 1 3 0] [[1, 2], [], []]
               [[(1, 1), (2, 1)], [], []] [[(1, 0), (2, 0)], [], []] 1 2 ([0] @ [chosen])
               ([True, False, False][chosen := True]) example_rng"
    using zero_total_fallback [OF ne sc tc, of example_rng] tot nonempty by blast
  have run: "map_sum id fst
        (tour_loop [task ''A'' 0 1 0, task ''B'' 1 2 0, task ''C'' 1 3 0] [[1, 2], [], []]
           [[(1, 1), (2, 1)], [], []] [[(1, 0), (2, 0)], [], []] 1 2 [0]
           [True, False, False] example_rng) = Inr [0, 2]"
    by code_simp
  show ?thesis
    by (intro conjI ne sc tc tot ex run)
qed

section \<open>Feasibility of the exact solver\<close>

text \<open>
  C7. On every input in which each task has \<open>end > start\<close> the exact solver returns, and
  the schedule it returns is pairwise non-overlapping: of any two tasks at different
  positions of the returned list, one ends no later than the other starts.
\<close>

theorem dp_schedule_feasible:
  assumes "valid_intervals obs_list"
  shows "\<exists>sched. dynamic_weighted_interval_scheduling obs_list = Some sched
           \<and> non_overlapping sched
           \<and> (\<forall>i<length sched. \<forall>j<length sched. i \<noteq> j
                 \<longrightarrow> endt (sched ! i) \<le> start (sched ! j) \<or> endt (sched ! j) \<le> start (sched ! i))"
proof -
  obtain ps where
    res: "dynamic_weighted_interval_scheduling obs_list
            = Some (map (sorted_task obs_list) (rev ps))"
    and ok: "sel_ok obs_list (length obs_list) ps"
    using dp_result [OF assms] by blast
  define sched where "sched = map (sorted_task obs_list) (rev ps)"
  have no: "non_overlapping sched"
    unfolding sched_def by (rule sel_ok_non_overlapping [OF assms ok])
  then have sw: "sorted_wrt compatible sched"
    by (simp add: non_overlapping_sorted_wrt)
  have "endt (sched ! i) \<le> start (sched ! j) \<or> endt (sched ! j) \<le> start (sched ! i)"
    if "i < length sched" "j < length sched" "i \<noteq> j" for i j
  proof (cases "i < j")
    case True
    then have "compatible (sched ! i) (sched ! j)"
      using sw that by (simp add: sorted_wrt_iff_nth_less)
    then show ?thesis by (simp add: compatible_def)
  next
    case False
    with that have "j < i" by simp
    then have "compatible (sched ! j) (sched ! i)"
      using sw that by (simp add: sorted_wrt_iff_nth_less)
    then show ?thesis by (auto simp: compatible_def)
  qed
  then show ?thesis
    using res no unfolding sched_def [symmetric] by blast
qed

theorem dp_schedule_feasible_witness:
  "valid_intervals [task ''A'' 0 1 5, task ''B'' 1 2 5, task ''C'' (1 / 2) (3 / 2) 100]
   \<and> (\<exists>sched. dynamic_weighted_interval_scheduling
                 [task ''A'' 0 1 5, task ''B'' 1 2 5, task ''C'' (1 / 2) (3 / 2) 100] = Some sched
         \<and> non_overlapping sched)"
proof -
  have v: "valid_intervals [task ''A'' 0 1 5, task ''B'' 1 2 5, task ''C'' (1 / 2) (3 / 2) 100]"
    by (simp add: valid_intervals_def task_def)
  show ?thesis
    using v dp_schedule_feasible [OF v] by blast
qed

section \<open>Optimality of the exact solver\<close>




section \<open>No interval validation\<close>

text \<open>
  C3, as stated, fails: neither solver checks \<open>end > start\<close>, and nothing in them raises
  an InvalidInterval error. On the single task from 5 to 5 with weight 1 the ant-colony
  solver (3 ants, 3 iterations, the other parameters at their defaults) returns that task as its schedule, and the exact
  solver does not return: its reconstruction loop comes back to the same \<open>i\<close> for ever.
\<close>

theorem invalid_interval_counterexample:
  "endt (task ''X'' 5 5 1) \<le> start (task ''X'' 5 5 1)
   \<and> ant_colony_schedule [task ''X'' 5 5 1] [[0]] 3 1 2 (3 / 10) 3 50 example_rng
       = Inr [task ''X'' 5 5 1]
   \<and> dynamic_weighted_interval_scheduling [task ''X'' 5 5 1] = None"
proof (intro conjI)
  show "endt (task ''X'' 5 5 1) \<le> start (task ''X'' 5 5 1)"
    by (simp add: task_def)
  show "ant_colony_schedule [task ''X'' 5 5 1] [[0]] 3 1 2 (3 / 10) 3 50 example_rng
       = Inr [task ''X'' 5 5 1]"
    by code_simp
  show "dynamic_weighted_interval_scheduling [task ''X'' 5 5 1] = None"
    by (rule dp_single_invalid) (simp_all add: task_def)
qed

text \<open>
  C3, amended. A single task with \<open>end \<le> start\<close> is not rejected by either solver. When
  its weight is positive, the ant-colony solver with at least one ant, at least one
  iteration and a slew matrix that has the entry \<open>[0][0]\<close> returns that task as its
  schedule, for every \<open>alpha\<close>, \<open>beta\<close>, \<open>evap\<close> and \<open>top_k\<close> and every sequence of random
  draws. When its weight is not negative, the exact solver does not return.
\<close>

theorem single_invalid_task_not_rejected:
  "(endt t \<le> start t \<and> 0 < weight t \<and> slew_covers 1 slew_matrix
      \<and> 0 < num_ants \<and> 0 < iterations
    \<longrightarrow> ant_colony_schedule [t] slew_matrix num_ants alpha beta evap iterations top_k g
          = Inr [t])
   \<and> (endt t \<le> start t \<and> 0 \<le> weight t
      \<longrightarrow> dynamic_weighted_interval_scheduling [t] = None)"
proof (intro conjI impI)
  assume "endt t \<le> start t \<and> 0 < weight t \<and> slew_covers 1 slew_matrix
      \<and> 0 < num_ants \<and> 0 < iterations"
  then show "ant_colony_schedule [t] slew_matrix num_ants alpha beta evap iterations top_k g
          = Inr [t]"
    by (intro aco_single_invalid) simp_all
next
  assume "endt t \<le> start t \<and> 0 \<le> weight t"
  then show "dynamic_weighted_interval_scheduling [t] = None"
    by (intro dp_single_invalid) simp_all
qed

theorem single_invalid_task_not_rejected_witness:
  "endt (task ''Z'' 7 4 2) \<le> start (task ''Z'' 7 4 2)
   \<and> 0 < weight (task ''Z'' 7 4 2)
   \<and> slew_covers 1 [[3]]
   \<and> ant_colony_schedule [task ''Z'' 7 4 2] [[3]] 2 1 2 (3 / 10) 1 1 example_rng
       = Inr [task ''Z'' 7 4 2]
   \<and> dynamic_weighted_interval_scheduling [task ''Z'' 7 4 2] = None"
proof -
  have e: "endt (task ''Z'' 7 4 2) \<le> start (task ''Z'' 7 4 2)"
    and w: "0 < weight (task ''Z'' 7 4 2)"
    by (simp_all add: task_def)
  have c: "slew_covers 1 [[3]]"
    by (simp add: slew_covers_def)
  note r = single_invalid_task_not_rejected [where t = "task ''Z'' 7 4 2"
      and slew_matrix = "[[3]]" and num_ants = 2 and alpha = 1 and beta = 2
      and evap = "3 / 10" and iterations = 1 and top_k = 1 and g = example_rng]
  have a: "ant_colony_schedule [task ''Z'' 7 4 2] [[3]] 2 1 2 (3 / 10) 1 1 example_rng
             = Inr [task ''Z'' 7 4 2]"
    using r e w c by simp
  have d: "dynamic_weighted_interval_scheduling [task ''Z'' 7 4 2] = None"
    using r e w by simp
  show ?thesis
    by (intro conjI e w c a d)
qed

end
